theory Spec2Isabelle
  imports Complex_Main "HOL-Library.AList"
begin

section \<open>Graph model (graph.js, class Graph)\<close>

text \<open>
  Node ids are JavaScript numbers that the program only ever produces as integers
  (\<^verbatim>\<open>nextId++\<close>, \<^verbatim>\<open>parseInt\<close>); an id is modelled by the \<open>int\<close> it equals, so an id may
  be negative, as \<^verbatim>\<open>renameNode\<close> allows.  A JavaScript number is a double: every integer
  up to \<open>2^53\<close> in magnitude is one, beyond that only some are, and an \<open>int\<close> that no double
  equals stands for no input of the program.  The allocator \<^verbatim>\<open>nextId\<close> starts at 0 and is
  only incremented, reset to 0, or replaced by \<^verbatim>\<open>Math.max(nextId, newId + 1)\<close>: a \<open>nat\<close>.
  A JavaScript \<^verbatim>\<open>Map\<close> is an association list in insertion order
  (\<^verbatim>\<open>set\<close> is \<open>AList.update\<close>, \<^verbatim>\<open>delete\<close> is \<open>AList.delete\<close>, \<^verbatim>\<open>get\<close> is \<open>map_of\<close>);
  a \<^verbatim>\<open>Set\<close> is the list of its members in insertion order.
  The limits of the JavaScript runtime are part of the model: the rounding of \<open>+ 1\<close>
  beyond \<open>2^53\<close>, the \<^verbatim>\<open>RangeError\<close> of \<^verbatim>\<open>new Array\<close> for a length beyond \<open>2^32 - 1\<close>, and
  the \<^verbatim>\<open>RangeError\<close> of a call that finds no room on the call stack.  The memory that a
  large array takes is not.
\<close>

type_synonym coord = real

record node =
  id' :: int
  x :: coord
  y :: coord

text \<open>
  The keys of \<^verbatim>\<open>edgeMap\<close> are the strings \<^verbatim>\<open>`${u}-${v}`\<close> (undirected, \<open>u \<le> v\<close>) and
  \<^verbatim>\<open>`${a}>${b}`\<close> (directed).  Both templates are injective on integers and never
  produce the same string, so a key is modelled by its shape and its two numbers.
\<close>

datatype edge_key = UKey int int | DKey int int

record edge =
  a :: int
  b :: int
  directed :: bool

record graph =
  nodes :: "node list"
  adj :: "(int \<times> int list) list"
  nextId :: nat
  edgeMap :: "(edge_key \<times> edge) list"

datatype js_error = TypeError | RangeError

text \<open>\<^verbatim>\<open>Set.prototype.add\<close>, \<^verbatim>\<open>delete\<close> and \<^verbatim>\<open>Map.prototype.has\<close>.\<close>

definition set_add :: "'a \<Rightarrow> 'a list \<Rightarrow> 'a list" where
  "set_add v s = (if v \<in> set s then s else s @ [v])"

definition set_delete :: "'a \<Rightarrow> 'a list \<Rightarrow> 'a list" where
  "set_delete v s = removeAll v s"

definition has :: "('k \<times> 'v) list \<Rightarrow> 'k \<Rightarrow> bool" where
  "has m k = (map_of m k \<noteq> None)"

text \<open>\<^verbatim>\<open>constructor()\<close>: the empty graph.\<close>

definition Graph0 :: graph where
  "Graph0 = \<lparr>nodes = [], adj = [], nextId = 0, edgeMap = []\<rparr>"

text \<open>
  \<open>n + 1\<close> in the arithmetic of doubles, for an integer \<open>n\<close> that a double equals.  The sum
  is exact when it is at most \<open>2^53\<close> in magnitude.  Beyond, \<open>n\<close> is even and \<open>n + 1\<close> is no
  double; the result is the nearest double.  Below \<open>2^54\<close> in magnitude the doubles are the
  even integers, \<open>n + 1\<close> lies halfway between \<open>n\<close> and \<open>n + 2\<close>, and the tie goes to the one
  with the even significand, the multiple of 4.  From \<open>2^54\<close> on, \<open>n\<close> itself is nearest.
\<close>

definition js_plus1 :: "int \<Rightarrow> int" where
  "js_plus1 n =
     (if \<bar>n + 1\<bar> \<le> 2 ^ 53 then n + 1
      else if \<bar>n\<bar> < 2 ^ 54 then (if n mod 4 = 0 then n else n + 2)
      else n)"

text \<open>\<^verbatim>\<open>addNode(x, y)\<close>: \<^verbatim>\<open>const id = this.nextId++\<close>.\<close>

definition addNode :: "graph \<Rightarrow> coord \<Rightarrow> coord \<Rightarrow> int \<times> graph" where
  "addNode g px py =
     (let i = int (nextId g)
      in (i, g\<lparr>nextId := nat (js_plus1 i),
                nodes := nodes g @ [\<lparr>id' = i, x = px, y = py\<rparr>],
                adj := AList.update i [] (adj g)\<rparr>))"

text \<open>
  \<^verbatim>\<open>this.adj.get(k).add(v)\<close> and \<^verbatim>\<open>this.adj.get(k).delete(v)\<close>: when \<open>k\<close> has no entry,
  \<^verbatim>\<open>get\<close> returns \<^verbatim>\<open>undefined\<close> and the method call throws a \<^verbatim>\<open>TypeError\<close>
  (\<open>None\<close> here).  The set is changed in place, so the entry keeps its position.
\<close>

definition adj_add :: "(int \<times> int list) list \<Rightarrow> int \<Rightarrow> int \<Rightarrow> (int \<times> int list) list option" where
  "adj_add m k v =
     (case map_of m k of None \<Rightarrow> None | Some s \<Rightarrow> Some (AList.update k (set_add v s) m))"

definition adj_delete :: "(int \<times> int list) list \<Rightarrow> int \<Rightarrow> int \<Rightarrow> (int \<times> int list) list option" where
  "adj_delete m k v =
     (case map_of m k of None \<Rightarrow> None | Some s \<Rightarrow> Some (AList.update k (set_delete v s) m))"

text \<open>
  \<^verbatim>\<open>addEdge(a, b, directed = false)\<close>.  The result is what the call returns, or the
  error it throws, together with the graph as the call leaves it: a throw happens
  after \<^verbatim>\<open>edgeMap.set\<close>, and possibly after the first \<^verbatim>\<open>add\<close>.
\<close>

definition addEdge :: "graph \<Rightarrow> int \<Rightarrow> int \<Rightarrow> bool \<Rightarrow> (js_error + bool) \<times> graph" where
  "addEdge g va vb dir =
     (if va = vb then (Inr False, g)
      else if dir then
        (let key = DKey va vb in
         if has (edgeMap g) key then (Inr False, g)
         else
           (let g1 = g\<lparr>edgeMap := AList.update key \<lparr>a = va, b = vb, directed = True\<rparr> (edgeMap g)\<rparr>
            in case adj_add (adj g1) va vb of
                 None \<Rightarrow> (Inl TypeError, g1)
               | Some m2 \<Rightarrow>
                   (case adj_add m2 vb va of
                      None \<Rightarrow> (Inl TypeError, g1\<lparr>adj := m2\<rparr>)
                    | Some m3 \<Rightarrow> (Inr True, g1\<lparr>adj := m3\<rparr>))))
      else
        (let u = min va vb; v = max va vb; key = UKey u v in
         if has (edgeMap g) key then (Inr False, g)
         else
           (let g1 = g\<lparr>edgeMap := AList.update key \<lparr>a = u, b = v, directed = False\<rparr> (edgeMap g)\<rparr>
            in case adj_add (adj g1) va vb of
                 None \<Rightarrow> (Inl TypeError, g1)
               | Some m2 \<Rightarrow>
                   (case adj_add m2 vb va of
                      None \<Rightarrow> (Inl TypeError, g1\<lparr>adj := m2\<rparr>)
                    | Some m3 \<Rightarrow> (Inr True, g1\<lparr>adj := m3\<rparr>)))))"

definition deleteEdge :: "graph \<Rightarrow> int \<Rightarrow> int \<Rightarrow> bool \<Rightarrow> (js_error + bool) \<times> graph" where
  "deleteEdge g va vb dir =
     (if dir then
        (let key = DKey va vb in
         if \<not> has (edgeMap g) key then (Inr False, g)
         else
           (let g1 = g\<lparr>edgeMap := AList.delete key (edgeMap g)\<rparr>
            in case adj_delete (adj g1) va vb of
                 None \<Rightarrow> (Inl TypeError, g1)
               | Some m2 \<Rightarrow>
                   (case adj_delete m2 vb va of
                      None \<Rightarrow> (Inl TypeError, g1\<lparr>adj := m2\<rparr>)
                    | Some m3 \<Rightarrow> (Inr True, g1\<lparr>adj := m3\<rparr>))))
      else
        (let u = min va vb; v = max va vb; key = UKey u v in
         if \<not> has (edgeMap g) key then (Inr False, g)
         else
           (let g1 = g\<lparr>edgeMap := AList.delete key (edgeMap g)\<rparr>
            in case adj_delete (adj g1) va vb of
                 None \<Rightarrow> (Inl TypeError, g1)
               | Some m2 \<Rightarrow>
                   (case adj_delete m2 vb va of
                      None \<Rightarrow> (Inl TypeError, g1\<lparr>adj := m2\<rparr>)
                    | Some m3 \<Rightarrow> (Inr True, g1\<lparr>adj := m3\<rparr>)))))"

text \<open>\<^verbatim>\<open>if (this.adj.has(k)) this.adj.get(k).delete(v)\<close>: the guarded form never throws.\<close>

definition adj_delete_if_has :: "(int \<times> int list) list \<Rightarrow> int \<Rightarrow> int \<Rightarrow> (int \<times> int list) list" where
  "adj_delete_if_has m k v = (case adj_delete m k v of None \<Rightarrow> m | Some m' \<Rightarrow> m')"

definition deleteEdgeByKey :: "graph \<Rightarrow> edge_key \<Rightarrow> bool \<times> graph" where
  "deleteEdgeByKey g key =
     (case map_of (edgeMap g) key of
        None \<Rightarrow> (False, g)
      | Some e \<Rightarrow>
          (let m1 = adj_delete_if_has (adj g) (a e) (b e);
               m2 = adj_delete_if_has m1 (b e) (a e)
           in (True, g\<lparr>edgeMap := AList.delete key (edgeMap g), adj := m2\<rparr>)))"

definition deleteNode :: "graph \<Rightarrow> int \<Rightarrow> bool \<times> graph" where
  "deleteNode g i =
     (let ns = filter (\<lambda>n. id' n \<noteq> i) (nodes g);
          m1 = (case map_of (adj g) i of
                  None \<Rightarrow> adj g
                | Some neigh \<Rightarrow>
                    AList.delete i (foldl (\<lambda>m v. adj_delete_if_has m v i) (adj g) neigh));
          m2 = map (\<lambda>(k, s). (k, set_delete i s)) m1;
          em = filter (\<lambda>(k, e). \<not> (a e = i \<or> b e = i)) (edgeMap g)
      in (True, g\<lparr>nodes := ns, adj := m2, edgeMap := em\<rparr>))"

text \<open>The body of the loop of \<^verbatim>\<open>renameNode\<close> that rebuilds \<^verbatim>\<open>edgeMap\<close>: one entry.\<close>

definition rename_edge :: "int \<Rightarrow> int \<Rightarrow> edge \<Rightarrow> edge_key \<times> edge" where
  "rename_edge oldId newId e =
     (let va = (if a e = oldId then newId else a e);
          vb = (if b e = oldId then newId else b e)
      in if directed e then (DKey va vb, \<lparr>a = va, b = vb, directed = True\<rparr>)
         else (let u = min va vb; v = max va vb
               in (UKey u v, \<lparr>a = u, b = v, directed = False\<rparr>)))"

text \<open>The loop itself: the new map starts empty and receives the rebuilt entries in order.\<close>

definition rename_edges :: "int \<Rightarrow> int \<Rightarrow> (edge_key \<times> edge) list \<Rightarrow> (edge_key \<times> edge) list" where
  "rename_edges oldId newId em =
     foldl (\<lambda>m (k, e). AList.update (fst (rename_edge oldId newId e))
                                     (snd (rename_edge oldId newId e)) m)
           [] em"

text \<open>
  \<^verbatim>\<open>renameNode(oldId, newId)\<close>.  There is no test that \<open>oldId\<close> is the id of a node, and
  none on \<open>newId\<close> but the conflict with a present node.
\<close>

definition renameNode :: "graph \<Rightarrow> int \<Rightarrow> int \<Rightarrow> bool \<times> graph" where
  "renameNode g oldId newId =
     (if oldId = newId then (True, g)
      else if \<exists>n \<in> set (nodes g). id' n = newId then (False, g)
      else
        (let ns = map (\<lambda>n. if id' n = oldId then n\<lparr>id' := newId\<rparr> else n) (nodes g);
             oldNeighbors = (case map_of (adj g) oldId of None \<Rightarrow> [] | Some s \<Rightarrow> s);
             m1 = AList.update newId oldNeighbors (AList.delete oldId (adj g));
             m2 = map (\<lambda>(k, s). (k, if k = newId then s
                                     else if oldId \<in> set s then set_add newId (set_delete oldId s)
                                     else s)) m1;
             em = rename_edges oldId newId (edgeMap g)
         in (True, g\<lparr>nodes := ns, adj := m2, edgeMap := em,
                      nextId := max (nextId g) (nat (js_plus1 newId))\<rparr>)))"

definition clear :: "graph \<Rightarrow> graph" where
  "clear g = g\<lparr>nodes := [], adj := [], nextId := 0, edgeMap := []\<rparr>"

definition edgeKey :: "int \<Rightarrow> int \<Rightarrow> edge_key" where
  "edgeKey va vb = UKey (min va vb) (max va vb)"

subsection \<open>Observations on a graph\<close>

text \<open>The ids of the nodes present: \<^verbatim>\<open>new Set(this.nodes.map((s) => s.id))\<close>.\<close>

definition node_ids :: "graph \<Rightarrow> int set" where
  "node_ids g = set (map id' (nodes g))"

text \<open>\<^verbatim>\<open>this.adj.get(u) || new Set()\<close>: the neighbours of \<open>u\<close>, in insertion order.\<close>

definition neighbors :: "graph \<Rightarrow> int \<Rightarrow> int list" where
  "neighbors g u = (case map_of (adj g) u of None \<Rightarrow> [] | Some s \<Rightarrow> s)"

text \<open>Adjacency is symmetric: \<open>q\<close> is in \<^verbatim>\<open>adj[p]\<close> if and only if \<open>p\<close> is in \<^verbatim>\<open>adj[q]\<close>.\<close>

definition adj_symmetric :: "graph \<Rightarrow> bool" where
  "adj_symmetric g =
     (\<forall>p \<in> set (map fst (adj g)). \<forall>q \<in> set (neighbors g p). p \<in> set (neighbors g q))"

text \<open>Every neighbour is the id of a present node, and no id is its own neighbour.\<close>

definition adj_closed :: "graph \<Rightarrow> bool" where
  "adj_closed g =
     (\<forall>p \<in> set (map fst (adj g)). \<forall>q \<in> set (neighbors g p). q \<in> node_ids g \<and> q \<noteq> p)"

text \<open>Every node id is below the allocator.\<close>

definition ids_bounded :: "graph \<Rightarrow> bool" where
  "ids_bounded g = (\<forall>n \<in> set (nodes g). id' n < int (nextId g))"

text \<open>Every present node has an entry in the adjacency index.\<close>

definition adj_covers_nodes :: "graph \<Rightarrow> bool" where
  "adj_covers_nodes g = (\<forall>n \<in> set (nodes g). has (adj g) (id' n))"

text \<open>
  The graphs a program can hold: built from the empty graph by the operations of the
  class, with any arguments, a call that throws included.  \<^verbatim>\<open>autoLayout\<close> and
  \<^verbatim>\<open>randomGraph\<close> also overwrite the coordinates of nodes.
\<close>

inductive reachable :: "graph \<Rightarrow> bool" where
  r_new: "reachable Graph0"
| r_addNode: "reachable g \<Longrightarrow> reachable (snd (addNode g px py))"
| r_addEdge: "reachable g \<Longrightarrow> reachable (snd (addEdge g p q d))"
| r_deleteEdge: "reachable g \<Longrightarrow> reachable (snd (deleteEdge g p q d))"
| r_deleteEdgeByKey: "reachable g \<Longrightarrow> reachable (snd (deleteEdgeByKey g k))"
| r_deleteNode: "reachable g \<Longrightarrow> reachable (snd (deleteNode g i))"
| r_renameNode: "reachable g \<Longrightarrow> reachable (snd (renameNode g i j))"
| r_clear: "reachable g \<Longrightarrow> reachable (clear g)"
| r_layout: "reachable g \<Longrightarrow> reachable (g\<lparr>nodes := map (\<lambda>n. n\<lparr>x := fx n, y := fy n\<rparr>) (nodes g)\<rparr>)"

section \<open>Structural analyzer (graph.js, analyze and analyzeWithSteps)\<close>

text \<open>
  The arrays \<^verbatim>\<open>disc\<close>, \<^verbatim>\<open>low\<close> and \<^verbatim>\<open>parent\<close> are created by
  \<^verbatim>\<open>new Array(this.nextId).fill(c)\<close> and indexed by node ids.  Reading a JavaScript array
  outside \<open>0 \<le> i < length\<close> gives \<^verbatim>\<open>undefined\<close>; writing there stores the value under
  that index all the same.  An array is therefore a function from indices to values,
  \<open>Undef\<close> where nothing is stored.  \<^verbatim>\<open>Math.min\<close> and the comparisons turn
  \<^verbatim>\<open>undefined\<close> into \<^verbatim>\<open>NaN\<close>: the minimum is then \<^verbatim>\<open>NaN\<close> and every comparison false.
\<close>

datatype jsval = Undef | NaN | Num int

type_synonym jsarray = "int \<Rightarrow> jsval"

definition in_bounds :: "nat \<Rightarrow> int \<Rightarrow> bool" where
  "in_bounds n i = (0 \<le> i \<and> i < int n)"

text \<open>
  \<^verbatim>\<open>new Array(n).fill(c)\<close>: the constructor throws a \<^verbatim>\<open>RangeError\<close> when \<open>n\<close> is not a
  valid array length, that is, beyond \<open>2^32 - 1\<close>.
\<close>

definition new_Array :: "nat \<Rightarrow> int \<Rightarrow> js_error + jsarray" where
  "new_Array n c =
     (if n < 2 ^ 32 then Inr (\<lambda>i. if in_bounds n i then Num c else Undef) else Inl RangeError)"

fun js_min :: "jsval \<Rightarrow> jsval \<Rightarrow> jsval" where
  "js_min (Num m) (Num n) = Num (min m n)"
| "js_min _ _ = NaN"

fun js_lt :: "jsval \<Rightarrow> jsval \<Rightarrow> bool" where
  "js_lt (Num m) (Num n) = (m < n)"
| "js_lt _ _ = False"

fun js_gt :: "jsval \<Rightarrow> jsval \<Rightarrow> bool" where
  "js_gt (Num m) (Num n) = (m > n)"
| "js_gt _ _ = False"

fun js_ge :: "jsval \<Rightarrow> jsval \<Rightarrow> bool" where
  "js_ge (Num m) (Num n) = (m \<ge> n)"
| "js_ge _ _ = False"

text \<open>Strict equality \<^verbatim>\<open>===\<close>: \<^verbatim>\<open>NaN\<close> is not equal to itself.\<close>

definition js_seq :: "jsval \<Rightarrow> jsval \<Rightarrow> bool" where
  "js_seq v w = (v = w \<and> v \<noteq> NaN)"

text \<open>A component \<^verbatim>\<open>{ edges: compEdges, verts: Array.from(compVerts) }\<close>.\<close>

record comp =
  edges :: "(int \<times> int) list"
  verts :: "int list"

text \<open>The object \<^verbatim>\<open>analyze\<close> returns.\<close>

record result =
  articulationPoints :: "int list"
  bridges :: "(int \<times> int) list"
  components :: "comp list"
  edgeToComp :: "(edge_key \<times> nat) list"

text \<open>
  The local variables of \<^verbatim>\<open>analyze\<close> that its closure \<^verbatim>\<open>dfs\<close> updates.  The edge stack
  is a list with its top at the head: \<^verbatim>\<open>push\<close> is \<open>#\<close>, \<^verbatim>\<open>pop\<close> takes the head.
\<close>

record tstate =
  disc :: jsarray
  low :: jsarray
  parent :: jsarray
  ap :: "int list"
  bridges :: "(int \<times> int) list"
  components :: "comp list"
  edgeStack :: "(int \<times> int) list"
  time :: int

text \<open>
  The declarations that open \<^verbatim>\<open>analyze\<close> and \<^verbatim>\<open>analyzeWithSteps\<close>.  A \<^verbatim>\<open>RangeError\<close> of
  \<^verbatim>\<open>new Array\<close> leaves the function at once.
\<close>

definition init_state :: "graph \<Rightarrow> js_error + tstate" where
  "init_state g =
     (case new_Array (nextId g) (- 1) of
        Inl e \<Rightarrow> Inl e
      | Inr d \<Rightarrow>
          (case new_Array (nextId g) 0 of
             Inl e \<Rightarrow> Inl e
           | Inr l \<Rightarrow>
               (case new_Array (nextId g) (- 1) of
                  Inl e \<Rightarrow> Inl e
                | Inr p \<Rightarrow>
                    Inr \<lparr>disc = d, low = l, parent = p, ap = [], bridges = [], components = [],
                         edgeStack = [], time = 0\<rparr>)))"

text \<open>\<^verbatim>\<open>disc[u] = low[u] = ++time\<close>.\<close>

definition visit :: "int \<Rightarrow> tstate \<Rightarrow> tstate" where
  "visit u st =
     (let t = time st + 1
      in st\<lparr>time := t, low := (low st)(u := Num t), disc := (disc st)(u := Num t)\<rparr>)"

text \<open>
  The loop that pops a component when \<^verbatim>\<open>low[v] >= disc[u]\<close>: it stops after the edge
  \<open>(u, v)\<close>, in either orientation, or when the stack is empty.  It returns the rest of
  the stack, \<^verbatim>\<open>compEdges\<close> and \<^verbatim>\<open>compVerts\<close>.
\<close>

fun pop_until ::
  "int \<Rightarrow> int \<Rightarrow> (int \<times> int) list \<Rightarrow> (int \<times> int) list \<Rightarrow> int list
     \<Rightarrow> (int \<times> int) list \<times> (int \<times> int) list \<times> int list" where
  "pop_until u v [] compEdges compVerts = ([], compEdges, compVerts)"
| "pop_until u v (e # es) compEdges compVerts =
     (let compEdges' = compEdges @ [e];
          compVerts' = set_add (snd e) (set_add (fst e) compVerts)
      in if (fst e = u \<and> snd e = v) \<or> (fst e = v \<and> snd e = u)
         then (es, compEdges', compVerts')
         else pop_until u v es compEdges' compVerts')"

text \<open>The loop after a root's \<^verbatim>\<open>dfs\<close>: it pops until the stack is empty.\<close>

fun pop_all :: "(int \<times> int) list \<Rightarrow> (int \<times> int) list \<Rightarrow> int list \<Rightarrow> (int \<times> int) list \<times> int list" where
  "pop_all [] compEdges compVerts = (compEdges, compVerts)"
| "pop_all (e # es) compEdges compVerts =
     pop_all es (compEdges @ [e]) (set_add (snd e) (set_add (fst e) compVerts))"

text \<open>\<^verbatim>\<open>if (compEdges.length) components.push({ edges: compEdges, verts: ... })\<close>.\<close>

definition push_component :: "(int \<times> int) list \<Rightarrow> int list \<Rightarrow> tstate \<Rightarrow> tstate" where
  "push_component compEdges compVerts st =
     (if compEdges \<noteq> []
      then st\<lparr>tstate.components := tstate.components st @ [\<lparr>edges = compEdges, verts = compVerts\<rparr>]\<rparr>
      else st)"

text \<open>The body of \<^verbatim>\<open>if (low[v] >= disc[u]) { ... }\<close>.\<close>

definition close_component :: "int \<Rightarrow> int \<Rightarrow> tstate \<Rightarrow> tstate" where
  "close_component u v st =
     (if js_ge (low st v) (disc st u)
      then (case pop_until u v (edgeStack st) [] [] of
              (es, compEdges, compVerts) \<Rightarrow>
                push_component compEdges compVerts (st\<lparr>edgeStack := es\<rparr>))
      else st)"

text \<open>What the loop body does once \<^verbatim>\<open>dfs(v)\<close> has returned, \<open>children\<close> already counted.\<close>

definition after_child :: "int \<Rightarrow> int \<Rightarrow> nat \<Rightarrow> tstate \<Rightarrow> tstate" where
  "after_child u v children st =
     (let st1 = st\<lparr>low := (low st)(u := js_min (low st u) (low st v))\<rparr>;
          st2 = (if js_seq (parent st1 u) (Num (- 1)) \<and> children > 1
                 then st1\<lparr>ap := set_add u (ap st1)\<rparr> else st1);
          st3 = (if \<not> js_seq (parent st2 u) (Num (- 1)) \<and> js_ge (low st2 v) (disc st2 u)
                 then st2\<lparr>ap := set_add u (ap st2)\<rparr> else st2);
          st4 = (if js_gt (low st3 v) (disc st3 u)
                 then st3\<lparr>tstate.bridges := tstate.bridges st3 @ [(u, v)]\<rparr> else st3)
      in close_component u v st4)"

text \<open>The branch for a back edge to an ancestor.\<close>

definition back_edge :: "int \<Rightarrow> int \<Rightarrow> tstate \<Rightarrow> tstate" where
  "back_edge u v st =
     (let st1 = st\<lparr>edgeStack := (u, v) # edgeStack st\<rparr>
      in st1\<lparr>low := (low st1)(u := js_min (low st1 u) (disc st1 v))\<rparr>)"

text \<open>\<^verbatim>\<open>parent[v] = u; children++; edgeStack.push([u, v])\<close>, before \<^verbatim>\<open>dfs(v)\<close>.\<close>

definition tree_edge :: "int \<Rightarrow> int \<Rightarrow> tstate \<Rightarrow> tstate" where
  "tree_edge u v st = st\<lparr>parent := (parent st)(v := Num u), edgeStack := (u, v) # edgeStack st\<rparr>"

text \<open>
  The closure \<^verbatim>\<open>dfs\<close> and its loop over the neighbours of \<open>u\<close>.  The recursion of the
  source is native: every call of \<^verbatim>\<open>dfs\<close> takes a frame of the call stack, and a call
  that finds no room throws a \<^verbatim>\<open>RangeError\<close>, which nothing in the program catches.  The
  first argument is the number of nested calls of \<^verbatim>\<open>dfs\<close> the stack still has room for;
  \<open>None\<close> is that \<^verbatim>\<open>RangeError\<close>, with the locals of \<^verbatim>\<open>analyze\<close> lost.
\<close>

fun dfs :: "nat \<Rightarrow> graph \<Rightarrow> int \<Rightarrow> tstate \<Rightarrow> tstate option"
and dfs_loop :: "nat \<Rightarrow> graph \<Rightarrow> int \<Rightarrow> nat \<Rightarrow> int list \<Rightarrow> tstate \<Rightarrow> tstate option" where
  "dfs 0 g u st = None"
| "dfs (Suc n) g u st = dfs_loop n g u 0 (neighbors g u) (visit u st)"
| "dfs_loop n g u children [] st = Some st"
| "dfs_loop n g u children (v # vs) st =
     (if v \<notin> node_ids g then dfs_loop n g u children vs st
      else if js_seq (disc st v) (Num (- 1)) then
        (case dfs n g v (tree_edge u v st) of
           None \<Rightarrow> None
         | Some st' \<Rightarrow> dfs_loop n g u (Suc children) vs (after_child u v (Suc children) st'))
      else if \<not> js_seq (Num v) (parent st u) \<and> js_lt (disc st v) (disc st u) then
        dfs_loop n g u children vs (back_edge u v st)
      else dfs_loop n g u children vs st)"

text \<open>After a root's \<^verbatim>\<open>dfs\<close>: the edges left on the stack form one more component.\<close>

definition pop_rest :: "tstate \<Rightarrow> tstate" where
  "pop_rest st =
     (if edgeStack st \<noteq> []
      then (case pop_all (edgeStack st) [] [] of
              (compEdges, compVerts) \<Rightarrow> push_component compEdges compVerts (st\<lparr>edgeStack := []\<rparr>))
      else st)"

text \<open>\<^verbatim>\<open>for (const node of this.nodes) if (disc[node.id] === -1) { ... }\<close>.\<close>

fun roots :: "nat \<Rightarrow> graph \<Rightarrow> node list \<Rightarrow> tstate \<Rightarrow> tstate option" where
  "roots n g [] st = Some st"
| "roots n g (nd # nds) st =
     (if js_seq (disc st (id' nd)) (Num (- 1)) then
        (case dfs n g (id' nd) st of
           None \<Rightarrow> None
         | Some st' \<Rightarrow> roots n g nds (pop_rest st'))
      else roots n g nds st)"

text \<open>The edge-to-component map: \<^verbatim>\<open>components.forEach((c, idx) => ...)\<close>.\<close>

definition build_edgeToComp :: "comp list \<Rightarrow> (edge_key \<times> nat) list" where
  "build_edgeToComp cs =
     foldl (\<lambda>m (c, idx). foldl (\<lambda>m e. AList.update (edgeKey (fst e) (snd e)) idx m) m (edges c))
           [] (zip cs [0..<length cs])"

definition make_result :: "tstate \<Rightarrow> result" where
  "make_result st =
     \<lparr>articulationPoints = ap st, bridges = tstate.bridges st,
      components = tstate.components st, edgeToComp = build_edgeToComp (tstate.components st)\<rparr>"

text \<open>
  \<^verbatim>\<open>analyze()\<close>, called where the call stack has room for \<open>depth\<close> nested calls of
  \<^verbatim>\<open>dfs\<close>: the result it returns, or the error it throws.
\<close>

definition analyze :: "nat \<Rightarrow> graph \<Rightarrow> js_error + result" where
  "analyze depth g =
     (case init_state g of
        Inl e \<Rightarrow> Inl e
      | Inr st0 \<Rightarrow>
          (case roots depth g (nodes g) st0 of
             None \<Rightarrow> Inl RangeError
           | Some st \<Rightarrow> Inr (make_result st)))"

section \<open>The instrumented analyzer (graph.js, analyzeWithSteps)\<close>

text \<open>
  The steps that \<^verbatim>\<open>analyzeWithSteps\<close> records: the objects with \<^verbatim>\<open>type\<close> \<^verbatim>\<open>'visit'\<close>,
  \<^verbatim>\<open>'pushEdge'\<close> (with its \<^verbatim>\<open>back\<close> flag), \<^verbatim>\<open>'updateLow'\<close> (from a \<^verbatim>\<open>child\<close> or
  \<^verbatim>\<open>backTo\<close> an ancestor), \<^verbatim>\<open>'markAP'\<close>, \<^verbatim>\<open>'markBridge'\<close> and \<^verbatim>\<open>'popComponent'\<close>.
\<close>

datatype low_source = Child int | BackTo int

datatype step =
    Visit int jsval jsval
  | PushEdge int int bool
  | UpdateLow int jsval low_source
  | MarkAP int
  | MarkBridge int int
  | PopComponent nat "(int \<times> int) list" "int list"

text \<open>
  \<^verbatim>\<open>const pushStep = (step) => steps.push(step)\<close> is a closure over the locals of
  \<^verbatim>\<open>analyzeWithSteps\<close>.  The traversal below takes that closure as a parameter: a logger
  receives the step, the traversal state at the moment of the call, and the log so far.
  The closure of the source ignores the state and appends the step.
\<close>

type_synonym 'l logger = "step \<Rightarrow> tstate \<Rightarrow> 'l \<Rightarrow> 'l"

definition pushStep :: "step list logger" where
  "pushStep s st steps = steps @ [s]"

fun visitS :: "'l logger \<Rightarrow> int \<Rightarrow> tstate \<times> 'l \<Rightarrow> tstate \<times> 'l" where
  "visitS ps u (st, lg) =
     (let t = time st + 1;
          st1 = st\<lparr>time := t, low := (low st)(u := Num t), disc := (disc st)(u := Num t)\<rparr>
      in (st1, ps (Visit u (disc st1 u) (low st1 u)) st1 lg))"

fun tree_edgeS :: "'l logger \<Rightarrow> int \<Rightarrow> int \<Rightarrow> tstate \<times> 'l \<Rightarrow> tstate \<times> 'l" where
  "tree_edgeS ps u v (st, lg) =
     (let st1 = st\<lparr>parent := (parent st)(v := Num u), edgeStack := (u, v) # edgeStack st\<rparr>
      in (st1, ps (PushEdge u v False) st1 lg))"

fun push_componentS ::
  "'l logger \<Rightarrow> (int \<times> int) list \<Rightarrow> int list \<Rightarrow> tstate \<times> 'l \<Rightarrow> tstate \<times> 'l" where
  "push_componentS ps compEdges compVerts (st, lg) =
     (if compEdges \<noteq> []
      then (let idx = length (tstate.components st);
                st1 = st\<lparr>tstate.components :=
                           tstate.components st @ [\<lparr>edges = compEdges, verts = compVerts\<rparr>]\<rparr>
            in (st1, ps (PopComponent idx compEdges compVerts) st1 lg))
      else (st, lg))"

fun close_componentS :: "'l logger \<Rightarrow> int \<Rightarrow> int \<Rightarrow> tstate \<times> 'l \<Rightarrow> tstate \<times> 'l" where
  "close_componentS ps u v (st, lg) =
     (if js_ge (low st v) (disc st u)
      then (case pop_until u v (edgeStack st) [] [] of
              (es, compEdges, compVerts) \<Rightarrow>
                push_componentS ps compEdges compVerts (st\<lparr>edgeStack := es\<rparr>, lg))
      else (st, lg))"

fun after_childS :: "'l logger \<Rightarrow> int \<Rightarrow> int \<Rightarrow> nat \<Rightarrow> tstate \<times> 'l \<Rightarrow> tstate \<times> 'l" where
  "after_childS ps u v children (st, lg) =
     (let st1 = st\<lparr>low := (low st)(u := js_min (low st u) (low st v))\<rparr>;
          lg1 = ps (UpdateLow u (low st1 u) (Child v)) st1 lg;
          (st2, lg2) = (if js_seq (parent st1 u) (Num (- 1)) \<and> children > 1
                        then (let s = st1\<lparr>ap := set_add u (ap st1)\<rparr> in (s, ps (MarkAP u) s lg1))
                        else (st1, lg1));
          (st3, lg3) = (if \<not> js_seq (parent st2 u) (Num (- 1)) \<and> js_ge (low st2 v) (disc st2 u)
                        then (let s = st2\<lparr>ap := set_add u (ap st2)\<rparr> in (s, ps (MarkAP u) s lg2))
                        else (st2, lg2));
          (st4, lg4) = (if js_gt (low st3 v) (disc st3 u)
                        then (let s = st3\<lparr>tstate.bridges := tstate.bridges st3 @ [(u, v)]\<rparr>
                              in (s, ps (MarkBridge u v) s lg3))
                        else (st3, lg3))
      in close_componentS ps u v (st4, lg4))"

fun back_edgeS :: "'l logger \<Rightarrow> int \<Rightarrow> int \<Rightarrow> tstate \<times> 'l \<Rightarrow> tstate \<times> 'l" where
  "back_edgeS ps u v (st, lg) =
     (let st1 = st\<lparr>edgeStack := (u, v) # edgeStack st\<rparr>;
          lg1 = ps (PushEdge u v True) st1 lg;
          st2 = st1\<lparr>low := (low st1)(u := js_min (low st1 u) (disc st1 v))\<rparr>
      in (st2, ps (UpdateLow u (low st2 u) (BackTo v)) st2 lg1))"

fun dfsS :: "'l logger \<Rightarrow> nat \<Rightarrow> graph \<Rightarrow> int \<Rightarrow> tstate \<times> 'l \<Rightarrow> (tstate \<times> 'l) option"
and dfs_loopS ::
  "'l logger \<Rightarrow> nat \<Rightarrow> graph \<Rightarrow> int \<Rightarrow> nat \<Rightarrow> int list \<Rightarrow> tstate \<times> 'l \<Rightarrow> (tstate \<times> 'l) option" where
  "dfsS ps 0 g u sl = None"
| "dfsS ps (Suc n) g u sl = dfs_loopS ps n g u 0 (neighbors g u) (visitS ps u sl)"
| "dfs_loopS ps n g u children [] sl = Some sl"
| "dfs_loopS ps n g u children (v # vs) sl =
     (if v \<notin> node_ids g then dfs_loopS ps n g u children vs sl
      else if js_seq (disc (fst sl) v) (Num (- 1)) then
        (case dfsS ps n g v (tree_edgeS ps u v sl) of
           None \<Rightarrow> None
         | Some sl' \<Rightarrow> dfs_loopS ps n g u (Suc children) vs (after_childS ps u v (Suc children) sl'))
      else if \<not> js_seq (Num v) (parent (fst sl) u) \<and> js_lt (disc (fst sl) v) (disc (fst sl) u) then
        dfs_loopS ps n g u children vs (back_edgeS ps u v sl)
      else dfs_loopS ps n g u children vs sl)"

fun pop_restS :: "'l logger \<Rightarrow> tstate \<times> 'l \<Rightarrow> tstate \<times> 'l" where
  "pop_restS ps (st, lg) =
     (if edgeStack st \<noteq> []
      then (case pop_all (edgeStack st) [] [] of
              (compEdges, compVerts) \<Rightarrow>
                push_componentS ps compEdges compVerts (st\<lparr>edgeStack := []\<rparr>, lg))
      else (st, lg))"

fun rootsS :: "'l logger \<Rightarrow> nat \<Rightarrow> graph \<Rightarrow> node list \<Rightarrow> tstate \<times> 'l \<Rightarrow> (tstate \<times> 'l) option" where
  "rootsS ps n g [] sl = Some sl"
| "rootsS ps n g (nd # nds) sl =
     (if js_seq (disc (fst sl) (id' nd)) (Num (- 1)) then
        (case dfsS ps n g (id' nd) sl of
           None \<Rightarrow> None
         | Some sl' \<Rightarrow> rootsS ps n g nds (pop_restS ps sl'))
      else rootsS ps n g nds sl)"

text \<open>
  \<^verbatim>\<open>analyzeWithSteps()\<close> returns \<^verbatim>\<open>{ result, steps }\<close>, or throws as \<^verbatim>\<open>analyze\<close> does.
\<close>

definition analyzeWithSteps :: "nat \<Rightarrow> graph \<Rightarrow> js_error + result \<times> step list" where
  "analyzeWithSteps depth g =
     (case init_state g of
        Inl e \<Rightarrow> Inl e
      | Inr st0 \<Rightarrow>
          (case rootsS pushStep depth g (nodes g) (st0, []) of
             None \<Rightarrow> Inl RangeError
           | Some (st, steps) \<Rightarrow> Inr (make_result st, steps)))"

section \<open>The stepper's replay (app.js, applyStepsUpTo)\<close>

text \<open>
  The state that \<^verbatim>\<open>applyStepsUpTo\<close> rebuilds from the steps before it renders: the set
  \<^verbatim>\<open>pushedEdges\<close> of edge keys, the list \<^verbatim>\<open>formedComps\<close> (index and edge keys of each
  component; its display colour is left out), the set \<^verbatim>\<open>aps\<close>, the list \<^verbatim>\<open>bridges\<close>,
  \<^verbatim>\<open>currentVisit\<close> and the set \<^verbatim>\<open>visitedNodes\<close>.
\<close>

record replay =
  pushedEdges :: "edge_key list"
  formedComps :: "(nat \<times> edge_key list) list"
  aps :: "int list"
  bridges :: "(int \<times> int) list"
  currentVisit :: "int option"
  visitedNodes :: "int list"

definition replay0 :: replay where
  "replay0 = \<lparr>pushedEdges = [], formedComps = [], aps = [], bridges = [],
              currentVisit = None, visitedNodes = []\<rparr>"

text \<open>The body of the loop, for one step \<open>s\<close>.\<close>

fun applyStep :: "step \<Rightarrow> replay \<Rightarrow> replay" where
  "applyStep (Visit u d l) rs = rs\<lparr>currentVisit := Some u, visitedNodes := set_add u (visitedNodes rs)\<rparr>"
| "applyStep (PushEdge u v back) rs = rs\<lparr>pushedEdges := set_add (edgeKey u v) (pushedEdges rs)\<rparr>"
| "applyStep (UpdateLow u l src) rs = rs"
| "applyStep (MarkAP u) rs = rs\<lparr>aps := set_add u (aps rs)\<rparr>"
| "applyStep (MarkBridge u v) rs = rs\<lparr>replay.bridges := replay.bridges rs @ [(u, v)]\<rparr>"
| "applyStep (PopComponent idx es vs) rs =
     rs\<lparr>formedComps := formedComps rs @ [(idx, map (\<lambda>e. edgeKey (fst e) (snd e)) es)]\<rparr>"

text \<open>
  \<^verbatim>\<open>for (let i = 0; i <= idx; i++) { const s = currentSteps[i]; if (!s) continue; ... }\<close>:
  an index beyond the steps reads \<^verbatim>\<open>undefined\<close> and is skipped; \<open>idx = -1\<close> replays
  nothing.
\<close>

definition applyStepsUpTo :: "int \<Rightarrow> step list \<Rightarrow> replay" where
  "applyStepsUpTo idx currentSteps =
     foldl (\<lambda>rs i. if i < length currentSteps then applyStep (currentSteps ! i) rs else rs)
           replay0 [0..<nat (idx + 1)]"

text \<open>
  A logger that records, with every step, the traversal state at the moment
  \<^verbatim>\<open>pushStep\<close> is called.  The traversal run with it is the traversal of
  \<^verbatim>\<open>analyzeWithSteps\<close> observed at each of its steps.
\<close>

definition ghostStep :: "(step \<times> tstate) list logger" where
  "ghostStep s st lg = lg @ [(s, st)]"

definition ghost_run :: "nat \<Rightarrow> graph \<Rightarrow> (tstate \<times> (step \<times> tstate) list) option" where
  "ghost_run depth g =
     (case init_state g of
        Inl e \<Rightarrow> None
      | Inr st0 \<Rightarrow> rootsS ghostStep depth g (nodes g) (st0, []))"

text \<open>The nodes visited so far: those whose \<^verbatim>\<open>disc\<close> holds a discovery time.\<close>

definition visited :: "tstate \<Rightarrow> int set" where
  "visited st = {i. \<exists>t. disc st i = Num t \<and> t \<noteq> - 1}"

text \<open>The keys of the edges on the edge stack.\<close>

definition stack_keys :: "tstate \<Rightarrow> edge_key set" where
  "stack_keys st = (\<lambda>e. edgeKey (fst e) (snd e)) ` set (edgeStack st)"

text \<open>The keys of the edges pushed so far: those on the stack and those of the components.\<close>

definition pushed_keys :: "tstate \<Rightarrow> edge_key set" where
  "pushed_keys st =
     (\<lambda>e. edgeKey (fst e) (snd e)) `
       (set (edgeStack st) \<union> (\<Union>c \<in> set (tstate.components st). set (edges c)))"

section \<open>Example graphs\<close>

text \<open>Graphs built by calls of the operations, used to evaluate the theorems below.\<close>

text \<open>Two isolated nodes 0 and 1.\<close>

definition ex_two :: graph where
  "ex_two = snd (addNode (snd (addNode Graph0 100 100)) 200 100)"

text \<open>The nodes 0 and 1 joined by one undirected edge.\<close>

definition ex_edge :: graph where
  "ex_edge = snd (addEdge ex_two 0 1 False)"

text \<open>Three isolated nodes 0, 1 and 2.\<close>

definition ex_three :: graph where
  "ex_three = snd (addNode ex_two 300 100)"

text \<open>\<^verbatim>\<open>renameNode(7, 9); addEdge(9, 0)\<close> on three isolated nodes, as the page calls them when
  its selection still holds the id 7 of a graph it has replaced: the rename button renames
  the selection, and a click on node 0 then joins the selection to it.  Both calls return
  true; 9 is no node, yet it has an adjacency entry and the edge 0-9.\<close>

definition ex_stale :: graph where
  "ex_stale = snd (addEdge (snd (renameNode ex_three 7 9)) 9 0 False)"


text \<open>The edge 0-1 after \<^verbatim>\<open>renameNode(1, 9007199254740992)\<close>, the id \<open>2^53\<close>.\<close>

definition ex_unsafe :: graph where
  "ex_unsafe = snd (renameNode ex_edge 1 9007199254740992)"

text \<open>The edge 0-1 after \<^verbatim>\<open>renameNode(1, 4294967295)\<close>, the id \<open>2^32 - 1\<close>.\<close>

definition ex_big :: graph where
  "ex_big = snd (renameNode ex_edge 1 4294967295)"

text \<open>The edge 0-1 after \<^verbatim>\<open>renameNode(1, -1)\<close>.\<close>

definition ex_neg :: graph where
  "ex_neg = snd (renameNode ex_edge 1 (- 1))"

text \<open>The path 0-1-2-3, built by four \<^verbatim>\<open>addNode\<close> and three \<^verbatim>\<open>addEdge\<close> calls.\<close>

definition ex_path :: graph where
  "ex_path =
     snd (addEdge (snd (addEdge (snd (addEdge
       (snd (addNode (snd (addNode ex_two 300 100)) 400 100)) 0 1 False)) 1 2 False)) 2 3 False)"

text \<open>The path 0-1-2-3 with the node list in the order \<open>ns\<close> and the neighbour sets of 1 and
  2 in the orders \<open>n1\<close> and \<open>n2\<close>.\<close>

definition path_graph :: "int list \<Rightarrow> int list \<Rightarrow> int list \<Rightarrow> graph" where
  "path_graph ns n1 n2 =
     \<lparr>nodes = map (\<lambda>i. \<lparr>id' = i, x = 0, y = 0\<rparr>) ns,
      adj = [(0, [1]), (1, n1), (2, n2), (3, [2])], nextId = 4,
      edgeMap = [(UKey 0 1, \<lparr>a = 0, b = 1, directed = False\<rparr>),
                 (UKey 1 2, \<lparr>a = 1, b = 2, directed = False\<rparr>),
                 (UKey 2 3, \<lparr>a = 2, b = 3, directed = False\<rparr>)]\<rparr>"

text \<open>The steps of \<^verbatim>\<open>analyzeWithSteps\<close> on \<open>ex_edge\<close>.\<close>

definition ex_steps :: "step list" where
  "ex_steps = [Visit 0 (Num 1) (Num 1), PushEdge 0 1 False, Visit 1 (Num 2) (Num 2),
               UpdateLow 0 (Num 1) (Child 1), MarkBridge 0 1, PopComponent 0 [(0, 1)] [0, 1]]"

section \<open>Notions used in the statements and proofs\<close>

text \<open>The state in which the traversal starts once the three arrays have been created.\<close>

definition start_state :: "graph \<Rightarrow> tstate" where
  "start_state g =
     \<lparr>disc = (\<lambda>i. if in_bounds (nextId g) i then Num (- 1) else Undef),
      low = (\<lambda>i. if in_bounds (nextId g) i then Num 0 else Undef),
      parent = (\<lambda>i. if in_bounds (nextId g) i then Num (- 1) else Undef),
      ap = [], bridges = [], components = [], edgeStack = [], time = 0\<rparr>"

text \<open>The indices that \<^verbatim>\<open>disc\<close> still marks as not visited.\<close>

definition unvisited :: "tstate \<Rightarrow> int set" where
  "unvisited st = {i. disc st i = Num (- 1)}"

text \<open>The present nodes that \<^verbatim>\<open>disc\<close> still marks as not visited.\<close>

definition todo :: "graph \<Rightarrow> tstate \<Rightarrow> int set" where
  "todo g st = unvisited st \<inter> node_ids g"

text \<open>A well-formed result: distinct articulation points; components with at least one edge
  and with \<^verbatim>\<open>verts\<close> the endpoints of their edges, each once; an edge-to-component map
  with one entry per key, each entry the index of a component that has an edge with that
  key, and an entry for the key of every edge of every component.\<close>

definition wf_result :: "result \<Rightarrow> bool" where
  "wf_result r \<longleftrightarrow>
     distinct (articulationPoints r) \<and>
     (\<forall>c \<in> set (result.components r).
        edges c \<noteq> [] \<and> distinct (verts c) \<and>
        set (verts c) = fst ` set (edges c) \<union> snd ` set (edges c)) \<and>
     distinct (map fst (edgeToComp r)) \<and>
     (\<forall>(k, i) \<in> set (edgeToComp r).
        i < length (result.components r) \<and>
        k \<in> (\<lambda>e. edgeKey (fst e) (snd e)) ` set (edges (result.components r ! i))) \<and>
     (\<forall>c \<in> set (result.components r). \<forall>e \<in> set (edges c).
        has (edgeToComp r) (edgeKey (fst e) (snd e)))"

text \<open>The part of \<open>wf_result\<close> that the traversal state maintains.\<close>

definition comps_ok :: "tstate \<Rightarrow> bool" where
  "comps_ok st \<longleftrightarrow>
     distinct (ap st) \<and>
     (\<forall>c \<in> set (tstate.components st).
        edges c \<noteq> [] \<and> distinct (verts c) \<and>
        set (verts c) = fst ` set (edges c) \<union> snd ` set (edges c))"

text \<open>The endpoints of a list of edges.\<close>

definition endpoints :: "(int \<times> int) list \<Rightarrow> int set" where
  "endpoints es = fst ` set es \<union> snd ` set es"

text \<open>\<^verbatim>\<open>this.edgeKey(e[0], e[1])\<close> for an edge \<open>e\<close> of the edge stack.\<close>

definition ekey :: "int \<times> int \<Rightarrow> edge_key" where
  "ekey e = edgeKey (fst e) (snd e)"

text \<open>The edge collection is well formed: both endpoints of every edge are present nodes, no
  edge is a self-loop, and no two entries join the same pair of nodes.\<close>

definition edges_wellformed :: "graph \<Rightarrow> bool" where
  "edges_wellformed g \<longleftrightarrow>
     (\<forall>(k, e) \<in> set (edgeMap g). a e \<in> node_ids g \<and> b e \<in> node_ids g \<and> a e \<noteq> b e) \<and>
     distinct (map (\<lambda>(k, e). edgeKey (a e) (b e)) (edgeMap g))"

text \<open>What claim C6 expects of the result on the path 0-1-2-3: the bridges are the three
  edges, as unordered pairs and without repetition, and the articulation points are 1
  and 2.\<close>

definition path_result :: "js_error + result \<Rightarrow> bool" where
  "path_result ro =
     (case ro of
        Inl e \<Rightarrow> False
      | Inr r \<Rightarrow>
          set (map (\<lambda>p. edgeKey (fst p) (snd p)) (result.bridges r)) = {UKey 0 1, UKey 1 2, UKey 2 3} \<and>
          length (result.bridges r) = 3 \<and>
          set (articulationPoints r) = {1, 2})"

text \<open>Dropping the recorded states from a log of steps with states.\<close>

definition erase :: "tstate \<times> (step \<times> tstate) list \<Rightarrow> tstate \<times> step list" where
  "erase sl = (fst sl, map fst (snd sl))"

text \<open>The replay of a list of steps, from the initial replay state.\<close>

definition rep :: "step list \<Rightarrow> replay" where
  "rep L = foldl (\<lambda>rs s. applyStep s rs) replay0 L"

text \<open>The replay of the steps \<open>L\<close> agrees with the traversal state \<open>st\<close>: its visited nodes
  are the visited nodes of \<open>st\<close>, its pushed edges are the keys pushed in \<open>st\<close>.\<close>

definition agrees :: "tstate \<Rightarrow> step list \<Rightarrow> bool" where
  "agrees st L \<longleftrightarrow>
     set (visitedNodes (rep L)) = visited st \<and> set (pushedEdges (rep L)) = pushed_keys st"

text \<open>Every recorded state agrees with the replay of the steps up to and including its own.\<close>

definition snapshots_agree :: "(step \<times> tstate) list \<Rightarrow> bool" where
  "snapshots_agree gl \<longleftrightarrow> (\<forall>i < length gl. agrees (snd (gl ! i)) (map fst (take (Suc i) gl)))"

text \<open>The invariant of the traversal run with \<open>ghostStep\<close>.\<close>

definition ghost_inv :: "tstate \<times> (step \<times> tstate) list \<Rightarrow> bool" where
  "ghost_inv sl \<longleftrightarrow> 0 \<le> time (fst sl) \<and> agrees (fst sl) (map fst (snd sl)) \<and> snapshots_agree (snd sl)"

text \<open>The steps that change neither \<^verbatim>\<open>visitedNodes\<close> nor \<^verbatim>\<open>pushedEdges\<close> in the replay.\<close>

definition silent :: "step \<Rightarrow> bool" where
  "silent s = (case s of Visit u d l \<Rightarrow> False | PushEdge u v k \<Rightarrow> False | _ \<Rightarrow> True)"

text \<open>The edge stack at the moment step \<open>i\<close> of the traversal of \<open>g\<close> was emitted.\<close>

definition stack_at :: "nat \<Rightarrow> nat \<Rightarrow> graph \<Rightarrow> (int \<times> int) list option" where
  "stack_at depth i g = map_option (\<lambda>r. edgeStack (snd (snd r ! i))) (ghost_run depth g)"


subsection \<open>Notions for the edge partition\<close>

text \<open>The edges pushed so far, in one list: those on the edge stack, then those of the
  components already popped.\<close>

definition pushed :: "tstate \<Rightarrow> (int \<times> int) list" where
  "pushed st = edgeStack st @ concat (map edges (tstate.components st))"

text \<open>The condition under which the loop of \<open>w\<close> pushes the pair \<open>(w, v)\<close>, read off the final
  arrays: \<open>v\<close> became a child of \<open>w\<close> (\<^verbatim>\<open>parent[v] = w\<close>), or \<open>v\<close> is not the parent of
  \<open>w\<close> and was discovered before it (\<^verbatim>\<open>v !== parent[u] && disc[v] < disc[u]\<close>).\<close>

definition takes :: "tstate \<Rightarrow> int \<Rightarrow> int \<Rightarrow> bool" where
  "takes st w v \<longleftrightarrow>
     parent st v = Num w \<or> (parent st w \<noteq> Num v \<and> js_lt (disc st v) (disc st w))"

text \<open>A graph whose ids the arrays of \<^verbatim>\<open>analyze\<close> can hold and whose indexes agree: every
  node id is an index below \<^verbatim>\<open>nextId\<close>, adjacency is symmetric and closed, no neighbour
  is listed twice, and the endpoints of every edge are adjacent.\<close>

definition graph_wf :: "graph \<Rightarrow> bool" where
  "graph_wf g \<longleftrightarrow>
     (\<forall>n \<in> set (nodes g). in_bounds (nextId g) (id' n)) \<and>
     adj_symmetric g \<and> adj_closed g \<and>
     (\<forall>p \<in> set (map fst (adj g)). distinct (neighbors g p)) \<and>
     (\<forall>(k, e) \<in> set (edgeMap g). b e \<in> set (neighbors g (a e)))"

text \<open>The invariant of the traversal state: discovery times are positive, at most \<open>time\<close>
  and distinct; \<^verbatim>\<open>disc\<close> is \<open>undefined\<close> exactly outside the array; a visited node was
  discovered after its parent; every parent is visited and its tree edge was pushed; every
  pushed pair starts at a visited node; and no pair was pushed twice.\<close>

definition tinv :: "graph \<Rightarrow> tstate \<Rightarrow> bool" where
  "tinv g st \<longleftrightarrow>
     0 \<le> time st \<and>
     (\<forall>i. in_bounds (nextId g) i \<longrightarrow>
          disc st i = Num (- 1) \<or> (\<exists>t. disc st i = Num t \<and> 1 \<le> t \<and> t \<le> time st)) \<and>
     (\<forall>i. \<not> in_bounds (nextId g) i \<longrightarrow> disc st i = Undef) \<and>
     (\<forall>i j t. disc st i = Num t \<longrightarrow> disc st j = Num t \<longrightarrow> 1 \<le> t \<longrightarrow> i = j) \<and>
     (\<forall>v w. v \<in> visited st \<longrightarrow> parent st v = Num w \<longrightarrow> 0 \<le> w \<longrightarrow> js_lt (disc st w) (disc st v)) \<and>
     (\<forall>i w. parent st i = Num w \<longrightarrow> 0 \<le> w \<longrightarrow> w \<in> visited st) \<and>
     (\<forall>v w. parent st v = Num w \<longrightarrow> 0 \<le> w \<longrightarrow> (w, v) \<in> set (pushed st)) \<and>
     (\<forall>p \<in> set (pushed st). fst p \<in> visited st) \<and>
     distinct (pushed st)"

text \<open>What a call of \<^verbatim>\<open>dfs\<close> leaves alone: the discovery time of every node already
  visited, and the parent of every node it does not newly visit.\<close>

definition frame :: "tstate \<Rightarrow> tstate \<Rightarrow> bool" where
  "frame st st' \<longleftrightarrow>
     (\<forall>i. disc st i \<noteq> Num (- 1) \<longrightarrow> disc st' i = disc st i) \<and>
     (\<forall>i. parent st' i \<noteq> parent st i \<longrightarrow> i \<in> visited st' - visited st)"

text \<open>The pairs that the nodes of \<open>N\<close> push: \<open>(w, v)\<close> for \<open>w\<close> in \<open>N\<close>, \<open>v\<close> a neighbour of
  \<open>w\<close>, when \<open>takes\<close> holds.\<close>

definition new_pair :: "graph \<Rightarrow> int set \<Rightarrow> tstate \<Rightarrow> int \<times> int \<Rightarrow> bool" where
  "new_pair g N st p \<longleftrightarrow> fst p \<in> N \<and> snd p \<in> set (neighbors g (fst p)) \<and> takes st (fst p) (snd p)"

text \<open>Every neighbour of a node of \<open>N\<close> is visited.\<close>

definition nbrs_done :: "graph \<Rightarrow> int set \<Rightarrow> tstate \<Rightarrow> bool" where
  "nbrs_done g N st \<longleftrightarrow> (\<forall>w \<in> N. set (neighbors g w) \<subseteq> visited st)"

text \<open>The state in which \<^verbatim>\<open>dfs(u)\<close> is called: \<open>u\<close> is not visited.\<close>

definition dfs_pre :: "graph \<Rightarrow> int \<Rightarrow> tstate \<Rightarrow> bool" where
  "dfs_pre g u st \<longleftrightarrow> tinv g st \<and> disc st u = Num (- 1)"

text \<open>The state \<^verbatim>\<open>dfs(u)\<close> returns: the pushed pairs are those of before and the pairs of
  the nodes newly visited.\<close>

definition dfs_post :: "graph \<Rightarrow> int \<Rightarrow> tstate \<Rightarrow> tstate \<Rightarrow> bool" where
  "dfs_post g u st st' \<longleftrightarrow>
     tinv g st' \<and> frame st st' \<and> parent st' u = parent st u \<and> u \<in> visited st' \<and>
     nbrs_done g (visited st' - visited st) st' \<and>
     (\<forall>p. p \<in> set (pushed st') \<longleftrightarrow>
          p \<in> set (pushed st) \<or> new_pair g (visited st' - visited st) st' p)"

text \<open>The state at the head of the loop of \<open>u\<close> with the neighbours \<open>vs\<close> still to come.\<close>

definition loop_pre :: "graph \<Rightarrow> int \<Rightarrow> int list \<Rightarrow> tstate \<Rightarrow> bool" where
  "loop_pre g u vs st \<longleftrightarrow>
     tinv g st \<and> u \<in> visited st \<and> distinct vs \<and> set vs \<subseteq> node_ids g \<and>
     (\<forall>v \<in> set vs. (u, v) \<notin> set (pushed st))"

text \<open>The state at the end of the loop of \<open>u\<close>, from the head with \<open>vs\<close> still to come.\<close>

definition loop_post :: "graph \<Rightarrow> int \<Rightarrow> int list \<Rightarrow> tstate \<Rightarrow> tstate \<Rightarrow> bool" where
  "loop_post g u vs st st' \<longleftrightarrow>
     tinv g st' \<and> frame st st' \<and> set vs \<subseteq> visited st' \<and>
     nbrs_done g (visited st' - visited st) st' \<and>
     (\<forall>p. p \<in> set (pushed st') \<longleftrightarrow>
          p \<in> set (pushed st) \<or> new_pair g (visited st' - visited st) st' p \<or>
          (fst p = u \<and> snd p \<in> set vs \<and> takes st' u (snd p)))"

text \<open>The state between two roots: the edge stack is empty, and the pushed pairs are those
  of the visited nodes.\<close>

definition fin :: "graph \<Rightarrow> tstate \<Rightarrow> bool" where
  "fin g st \<longleftrightarrow>
     tinv g st \<and> edgeStack st = [] \<and> nbrs_done g (visited st) st \<and>
     (\<forall>p. p \<in> set (pushed st) \<longleftrightarrow> new_pair g (visited st) st p)"

text \<open>How many times the edge \<open>e\<close> occurs, in either orientation, among the edges of all the
  components.\<close>

definition edge_count :: "edge \<Rightarrow> comp list \<Rightarrow> nat" where
  "edge_count e cs =
     length (filter (\<lambda>p. ekey p = edgeKey (a e) (b e)) (concat (map edges cs)))"

text \<open>The component \<open>c\<close> has the edge \<open>e\<close>, in either orientation.\<close>

definition in_component :: "edge \<Rightarrow> comp \<Rightarrow> bool" where
  "in_component e c \<longleftrightarrow> (\<exists>p \<in> set (edges c). ekey p = edgeKey (a e) (b e))"

text \<open>The path 0-1-2-3 with the edge 0-2 added: a triangle and a bridge.\<close>

definition ex_cycle :: graph where
  "ex_cycle = snd (addEdge ex_path 0 2 False)"

section \<open>Properties of the graph model\<close>

lemma neighbors_keys: "q \<in> set (neighbors g p) \<Longrightarrow> p \<in> set (map fst (adj g))"
  by (cases "map_of (adj g) p") (auto simp: neighbors_def dest!: map_of_SomeD intro: rev_image_eqI)

lemma adj_symmetric_iff: "adj_symmetric g \<longleftrightarrow> (\<forall>p q. q \<in> set (neighbors g p) \<longrightarrow> p \<in> set (neighbors g q))"
  unfolding adj_symmetric_def using neighbors_keys by blast

lemma adj_closed_iff: "adj_closed g \<longleftrightarrow> (\<forall>p q. q \<in> set (neighbors g p) \<longrightarrow> q \<in> node_ids g \<and> q \<noteq> p)"
  unfolding adj_closed_def using neighbors_keys by blast

lemma neighbors_addNode:
  "neighbors (snd (addNode g px py)) p = (if p = int (nextId g) then [] else neighbors g p)"
  by (simp add: neighbors_def addNode_def Let_def update_conv')

lemma set_set_add [simp]: "set (set_add v s) = insert v (set s)"
  by (auto simp: set_add_def)

lemma set_set_delete [simp]: "set (set_delete v s) = set s - {v}"
  by (auto simp: set_delete_def)

lemma map_of_adj_add:
  "adj_add m k v = Some m' \<Longrightarrow> map_of m' = (map_of m)(k \<mapsto> set_add v (the (map_of m k)))"
  by (auto simp: adj_add_def update_conv' split: option.splits)

lemma adj_add_None: "adj_add m k v = None \<longleftrightarrow> map_of m k = None"
  by (auto simp: adj_add_def split: option.splits)

lemma map_of_adj_delete:
  "adj_delete m k v = Some m' \<Longrightarrow> map_of m' = (map_of m)(k \<mapsto> set_delete v (the (map_of m k)))"
  by (auto simp: adj_delete_def update_conv' split: option.splits)

lemma adj_delete_None: "adj_delete m k v = None \<longleftrightarrow> map_of m k = None"
  by (auto simp: adj_delete_def split: option.splits)

lemma map_of_adj_delete_if_has:
  "map_of (adj_delete_if_has m k v) = (\<lambda>p. if p = k then map_option (set_delete v) (map_of m k) else map_of m p)"
  by (auto simp: adj_delete_if_has_def adj_delete_def update_conv' split: option.splits)

lemma neighbors_addEdge:
  assumes "addEdge g va vb d = (Inr True, g')"
  shows "set (neighbors g' p) =
           set (neighbors g p) \<union> (if p = va then {vb} else {}) \<union> (if p = vb then {va} else {})"
  using assms
  by (auto simp: addEdge_def Let_def neighbors_def adj_add_def update_conv'
           split: if_splits option.splits)

lemma addEdge_False: "addEdge g va vb d = (Inr False, g') \<Longrightarrow> g' = g"
  by (auto simp: addEdge_def Let_def split: if_splits option.splits)

lemma neighbors_deleteEdge:
  assumes "deleteEdge g va vb d = (Inr True, g')"
  shows "set (neighbors g' p) =
           set (neighbors g p) - (if p = va then {vb} else {}) - (if p = vb then {va} else {})"
  using assms
  by (auto simp: deleteEdge_def Let_def neighbors_def adj_delete_def update_conv'
           split: if_splits option.splits)

lemma deleteEdge_False: "deleteEdge g va vb d = (Inr False, g') \<Longrightarrow> g' = g"
  by (auto simp: deleteEdge_def Let_def split: if_splits option.splits)

lemma nb_adj_delete_if_has:
  "set (case map_of (adj_delete_if_has m k v) p of None \<Rightarrow> [] | Some s \<Rightarrow> s) =
     set (case map_of m p of None \<Rightarrow> [] | Some s \<Rightarrow> s) - (if p = k then {v} else {})"
  by (cases "map_of m p") (auto simp: map_of_adj_delete_if_has)

lemma neighbors_deleteEdgeByKey:
  assumes "map_of (edgeMap g) k = Some e"
  shows "set (neighbors (snd (deleteEdgeByKey g k)) p) =
           set (neighbors g p) - (if p = a e then {b e} else {}) - (if p = b e then {a e} else {})"
  using assms
  by (simp add: deleteEdgeByKey_def Let_def neighbors_def nb_adj_delete_if_has)

lemma deleteEdgeByKey_None: "map_of (edgeMap g) k = None \<Longrightarrow> deleteEdgeByKey g k = (False, g)"
  by (auto simp: deleteEdgeByKey_def)

lemma map_of_foldl_delete:
  "map_of (foldl (\<lambda>m v. adj_delete_if_has m v i) m vs) p =
     map_option (\<lambda>s. if p \<in> set vs then set_delete i s else s) (map_of m p)"
proof (induction vs arbitrary: m)
  case Nil
  show ?case by (simp add: option.map_ident)
next
  case (Cons v vs)
  show ?case
    by (cases "map_of m p")
       (auto simp: Cons.IH map_of_adj_delete_if_has set_delete_def)
qed

lemma map_of_map_val:
  "map_of (map (\<lambda>(k, s). (k, f k s)) m) p = map_option (f p) (map_of m p)"
  by (induction m) auto

lemma neighbors_deleteNode:
  "set (neighbors (snd (deleteNode g i)) p) = (if p = i then {} else set (neighbors g p) - {i})"
proof (cases "map_of (adj g) i")
  case None
  then show ?thesis
    using map_of_map_val[of "\<lambda>k s. set_delete i s" "adj g" p]
    by (cases "map_of (adj g) p") (auto simp: deleteNode_def Let_def neighbors_def)
next
  case (Some neigh)
  then show ?thesis
    using map_of_map_val[of "\<lambda>k s. set_delete i s" "AList.delete i (foldl (\<lambda>m v. adj_delete_if_has m v i) (adj g) neigh)" p]
    by (cases "map_of (adj g) p")
       (auto simp: deleteNode_def Let_def neighbors_def delete_conv' map_of_foldl_delete)
qed

lemma neighbors_renameNode:
  assumes "oldId \<noteq> newId" "newId \<notin> node_ids g"
  shows "set (neighbors (snd (renameNode g oldId newId)) p) =
           (if p = newId then set (neighbors g oldId)
            else if p = oldId then {}
            else if oldId \<in> set (neighbors g p) then insert newId (set (neighbors g p) - {oldId})
            else set (neighbors g p))"
proof -
  let ?f = "\<lambda>k s. if k = newId then s else if oldId \<in> set s then set_add newId (set_delete oldId s) else s"
  let ?m1 = "AList.update newId (case map_of (adj g) oldId of None \<Rightarrow> [] | Some s \<Rightarrow> s) (AList.delete oldId (adj g))"
  have r: "adj (snd (renameNode g oldId newId)) = map (\<lambda>(k, s). (k, ?f k s)) ?m1"
    using assms by (auto simp: renameNode_def Let_def node_ids_def)
  show ?thesis
    unfolding neighbors_def r map_of_map_val
    using assms(1)
    by (cases "map_of (adj g) p") (auto simp: update_conv' delete_conv' split: option.splits)
qed

lemma renameNode_same: "renameNode g i i = (True, g)"
  by (simp add: renameNode_def)

lemma renameNode_conflict: "oldId \<noteq> newId \<Longrightarrow> newId \<in> node_ids g \<Longrightarrow> renameNode g oldId newId = (False, g)"
  by (auto simp: renameNode_def node_ids_def)

lemma neighbors_clear: "neighbors (clear g) p = []"
  by (simp add: neighbors_def clear_def)

lemma js_plus1_small: "\<bar>n + 1\<bar> \<le> 2 ^ 53 \<Longrightarrow> js_plus1 n = n + 1"
  by (simp add: js_plus1_def)

lemma js_plus1_nat: "n < 2 ^ 53 \<Longrightarrow> nat (js_plus1 (int n)) = Suc n"
proof -
  assume "n < 2 ^ 53"
  then have "int n < 2 ^ 53" by (metis of_nat_less_iff of_nat_numeral of_nat_power)
  then have "\<bar>int n + 1\<bar> \<le> 2 ^ 53" by simp
  then show ?thesis by (simp add: js_plus1_small)
qed

lemma js_plus1_above: "j < 2 ^ 53 \<Longrightarrow> j < int (max n (nat (js_plus1 j)))"
proof (cases "0 \<le> j")
  case True
  assume "j < 2 ^ 53"
  with True have "\<bar>j + 1\<bar> \<le> 2 ^ 53" by simp
  then have "js_plus1 j = j + 1" by (rule js_plus1_small)
  with True show ?thesis by simp
next
  case False
  then show ?thesis by simp
qed

lemma sym_addNode:
  assumes "adj_symmetric g" "adj_closed g" "ids_bounded g"
  shows "adj_symmetric (snd (addNode g px py))"
proof -
  have "int (nextId g) \<notin> node_ids g"
    using assms(3) by (auto simp: ids_bounded_def node_ids_def)
  then have "\<And>p. int (nextId g) \<notin> set (neighbors g p)"
    using assms(2) by (auto simp: adj_closed_iff)
  then show ?thesis
    using assms(1) by (auto simp: adj_symmetric_iff neighbors_addNode)
qed

lemma sym_addEdge:
  assumes "adj_symmetric g" "fst (addEdge g va vb d) = Inr r"
  shows "adj_symmetric (snd (addEdge g va vb d))"
proof (cases r)
  case True
  then have "addEdge g va vb d = (Inr True, snd (addEdge g va vb d))"
    using assms(2) by (metis prod.collapse)
  from neighbors_addEdge[OF this] assms(1) show ?thesis
    by (auto simp: adj_symmetric_iff split: if_splits)
next
  case False
  then have "addEdge g va vb d = (Inr False, snd (addEdge g va vb d))"
    using assms(2) by (metis prod.collapse)
  from addEdge_False[OF this] assms(1) show ?thesis by simp
qed

lemma sym_deleteEdge:
  assumes "adj_symmetric g" "fst (deleteEdge g va vb d) = Inr r"
  shows "adj_symmetric (snd (deleteEdge g va vb d))"
proof (cases r)
  case True
  then have "deleteEdge g va vb d = (Inr True, snd (deleteEdge g va vb d))"
    using assms(2) by (metis prod.collapse)
  from neighbors_deleteEdge[OF this] assms(1) show ?thesis
    by (auto simp: adj_symmetric_iff split: if_splits)
next
  case False
  then have "deleteEdge g va vb d = (Inr False, snd (deleteEdge g va vb d))"
    using assms(2) by (metis prod.collapse)
  from deleteEdge_False[OF this] assms(1) show ?thesis by simp
qed

lemma sym_deleteEdgeByKey:
  assumes "adj_symmetric g"
  shows "adj_symmetric (snd (deleteEdgeByKey g k))"
proof (cases "map_of (edgeMap g) k")
  case None
  then show ?thesis using assms by (simp add: deleteEdgeByKey_None)
next
  case (Some e)
  from neighbors_deleteEdgeByKey[OF this] assms show ?thesis
    by (auto simp: adj_symmetric_iff split: if_splits)
qed

lemma sym_deleteNode:
  assumes "adj_symmetric g"
  shows "adj_symmetric (snd (deleteNode g i))"
  using assms by (auto simp: adj_symmetric_iff neighbors_deleteNode split: if_splits)

lemma sym_renameNode:
  assumes "adj_symmetric g" "adj_closed g"
  shows "adj_symmetric (snd (renameNode g oldId newId))"
proof (cases "oldId = newId \<or> newId \<in> node_ids g")
  case True
  then show ?thesis
    using assms(1) renameNode_same renameNode_conflict by (metis snd_conv)
next
  case False
  then have ne: "oldId \<noteq> newId" and nn: "newId \<notin> node_ids g" by auto
  have fresh: "\<And>p. newId \<notin> set (neighbors g p)"
    using nn assms(2) by (auto simp: adj_closed_iff)
  have irr: "\<And>p. p \<notin> set (neighbors g p)"
    using assms(2) by (auto simp: adj_closed_iff)
  show ?thesis
    unfolding adj_symmetric_iff neighbors_renameNode[OF ne nn]
    using assms(1) fresh irr ne
    by (auto simp: adj_symmetric_iff split: if_splits)
qed

lemma sym_clear: "adj_symmetric (clear g)"
  by (simp add: adj_symmetric_iff neighbors_clear)

lemma nodes_addEdge: "nodes (snd (addEdge g p q d)) = nodes g" "nextId (snd (addEdge g p q d)) = nextId g"
  by (auto simp: addEdge_def Let_def split: option.splits)

lemma nodes_deleteEdge: "nodes (snd (deleteEdge g p q d)) = nodes g" "nextId (snd (deleteEdge g p q d)) = nextId g"
  by (auto simp: deleteEdge_def Let_def split: option.splits)

lemma nodes_deleteEdgeByKey: "nodes (snd (deleteEdgeByKey g k)) = nodes g" "nextId (snd (deleteEdgeByKey g k)) = nextId g"
  by (auto simp: deleteEdgeByKey_def Let_def split: option.splits)

lemma ids_bounded_addNode:
  "ids_bounded g \<Longrightarrow> nextId g < 2 ^ 53 \<Longrightarrow> ids_bounded (snd (addNode g px py))"
  by (auto simp: ids_bounded_def addNode_def Let_def js_plus1_nat)

lemma ids_bounded_deleteNode: "ids_bounded g \<Longrightarrow> ids_bounded (snd (deleteNode g i))"
  by (auto simp: ids_bounded_def deleteNode_def Let_def)

lemma ids_bounded_renameNode:
  assumes "ids_bounded g" "j < 2 ^ 53"
  shows "ids_bounded (snd (renameNode g i j))"
proof -
  have "j < int (max (nextId g) (nat (js_plus1 j)))" by (rule js_plus1_above[OF assms(2)])
  moreover have "k < int (max (nextId g) (nat (js_plus1 j)))" if "k < int (nextId g)" for k
    using that by simp
  ultimately show ?thesis
    using assms(1) by (auto simp: ids_bounded_def renameNode_def Let_def simp del: of_nat_max)
qed

lemma ids_bounded_addEdge: "ids_bounded g \<Longrightarrow> ids_bounded (snd (addEdge g p q d))"
  by (simp add: ids_bounded_def nodes_addEdge)

lemma ids_bounded_deleteEdge: "ids_bounded g \<Longrightarrow> ids_bounded (snd (deleteEdge g p q d))"
  by (simp add: ids_bounded_def nodes_deleteEdge)

lemma ids_bounded_deleteEdgeByKey: "ids_bounded g \<Longrightarrow> ids_bounded (snd (deleteEdgeByKey g k))"
  by (simp add: ids_bounded_def nodes_deleteEdgeByKey)

lemma ids_bounded_clear: "ids_bounded (clear g)"
  by (auto simp: ids_bounded_def clear_def)

lemma has_iff_keys: "has m k \<longleftrightarrow> k \<in> fst ` set m"
  by (simp add: has_def map_of_eq_None_iff)

lemma update_absent: "\<not> has m k \<Longrightarrow> AList.update k v m = m @ [(k, v)]"
  by (induction m) (auto simp: has_def split: if_splits)

lemma keys_update_present: "map_of m k = Some s \<Longrightarrow> fst ` set (AList.update k v m) = fst ` set m"
proof -
  assume "map_of m k = Some s"
  then have "k \<in> fst ` set m" by (metis map_of_eq_None_iff option.distinct(1))
  then show ?thesis by (simp add: dom_update insert_absorb)
qed

lemma keys_adj_add: "adj_add m k v = Some m' \<Longrightarrow> fst ` set m' = fst ` set m"
  by (cases "map_of m k") (clarsimp simp: adj_add_def keys_update_present)+

lemma keys_adj_delete: "adj_delete m k v = Some m' \<Longrightarrow> fst ` set m' = fst ` set m"
  by (cases "map_of m k") (clarsimp simp: adj_delete_def keys_update_present)+

lemma keys_adj_delete_if_has: "fst ` set (adj_delete_if_has m k v) = fst ` set m"
  by (auto simp: adj_delete_if_has_def keys_adj_delete split: option.splits)

lemma keys_addEdge: "fst ` set (adj (snd (addEdge g va vb d))) = fst ` set (adj g)"
  by (auto simp: addEdge_def Let_def keys_adj_add split: option.splits)

lemma keys_deleteEdge: "fst ` set (adj (snd (deleteEdge g va vb d))) = fst ` set (adj g)"
  by (auto simp: deleteEdge_def Let_def keys_adj_delete split: option.splits)

lemma keys_deleteEdgeByKey: "fst ` set (adj (snd (deleteEdgeByKey g k))) = fst ` set (adj g)"
  by (auto simp: deleteEdgeByKey_def Let_def keys_adj_delete_if_has split: option.splits)

lemma keys_foldl_delete: "fst ` set (foldl (\<lambda>m v. adj_delete_if_has m v i) m vs) = fst ` set m"
  by (induction vs arbitrary: m) (auto simp: keys_adj_delete_if_has)

lemma keys_map_val: "fst ` (\<lambda>(k, s). (k, f k s)) ` A = fst ` A"
  by force

lemma keys_delete: "fst ` set (AList.delete i m) = fst ` set m - {i}"
  by (induction m) auto

lemma keys_deleteNode: "fst ` set (adj (snd (deleteNode g i))) = fst ` set (adj g) - {i}"
proof (cases "map_of (adj g) i")
  case None
  then have "i \<notin> fst ` set (adj g)" by (simp add: map_of_eq_None_iff)
  with None show ?thesis by (simp add: deleteNode_def Let_def keys_map_val)
next
  case (Some neigh)
  then show ?thesis by (simp add: deleteNode_def Let_def keys_map_val keys_foldl_delete keys_delete)
qed

lemma keys_renameNode:
  assumes "oldId \<noteq> newId" "newId \<notin> node_ids g"
  shows "fst ` set (adj (snd (renameNode g oldId newId))) = insert newId (fst ` set (adj g) - {oldId})"
  using assms
  by (auto simp: renameNode_def Let_def node_ids_def keys_map_val dom_update keys_delete)

lemma covers_addNode: "adj_covers_nodes g \<Longrightarrow> adj_covers_nodes (snd (addNode g px py))"
  by (auto simp: adj_covers_nodes_def has_iff_keys addNode_def Let_def dom_update)

lemma covers_addEdge: "adj_covers_nodes g \<Longrightarrow> adj_covers_nodes (snd (addEdge g va vb d))"
  by (simp add: adj_covers_nodes_def has_iff_keys keys_addEdge nodes_addEdge)

lemma covers_deleteEdge: "adj_covers_nodes g \<Longrightarrow> adj_covers_nodes (snd (deleteEdge g va vb d))"
  by (simp add: adj_covers_nodes_def has_iff_keys keys_deleteEdge nodes_deleteEdge)

lemma covers_deleteEdgeByKey: "adj_covers_nodes g \<Longrightarrow> adj_covers_nodes (snd (deleteEdgeByKey g k))"
  by (simp add: adj_covers_nodes_def has_iff_keys keys_deleteEdgeByKey nodes_deleteEdgeByKey)

lemma covers_deleteNode: "adj_covers_nodes g \<Longrightarrow> adj_covers_nodes (snd (deleteNode g i))"
  unfolding adj_covers_nodes_def has_iff_keys keys_deleteNode
  by (auto simp: deleteNode_def Let_def)

lemma covers_renameNode: "adj_covers_nodes g \<Longrightarrow> adj_covers_nodes (snd (renameNode g i j))"
proof (cases "i = j \<or> j \<in> node_ids g")
  case True
  assume "adj_covers_nodes g"
  with True show ?thesis
    by (cases "i = j") (simp_all add: renameNode_same renameNode_conflict)
next
  case False
  assume c: "adj_covers_nodes g"
  from False have ne: "i \<noteq> j" and nn: "j \<notin> node_ids g" by auto
  have n: "nodes (snd (renameNode g i j)) = map (\<lambda>n. if id' n = i then n\<lparr>id' := j\<rparr> else n) (nodes g)"
    using ne nn by (auto simp: renameNode_def Let_def node_ids_def)
  show ?thesis
    unfolding adj_covers_nodes_def has_iff_keys keys_renameNode[OF ne nn] n
    using c by (auto simp: adj_covers_nodes_def has_iff_keys)
qed

lemma reachable_covers: "reachable g \<Longrightarrow> adj_covers_nodes g"
proof (induction rule: reachable.induct)
  case r_new
  show ?case by (simp add: adj_covers_nodes_def Graph0_def)
next
  case (r_clear g)
  show ?case by (simp add: adj_covers_nodes_def clear_def)
next
  case (r_layout g fx fy)
  then show ?case by (auto simp: adj_covers_nodes_def)
qed (simp_all add: covers_addNode covers_addEdge covers_deleteEdge covers_deleteEdgeByKey
      covers_deleteNode covers_renameNode)

lemma addEdge_no_throw:
  assumes "has (adj g) va" "has (adj g) vb"
  shows "\<exists>r. fst (addEdge g va vb d) = Inr r"
proof -
  obtain s where s: "map_of (adj g) va = Some s" using assms(1) by (auto simp: has_def)
  obtain t where t: "map_of (adj g) vb = Some t" using assms(2) by (auto simp: has_def)
  show ?thesis
    using s t by (auto simp: addEdge_def Let_def adj_add_def update_conv')
qed


lemma ex_two_eq:
  "ex_two = \<lparr>nodes = [\<lparr>id' = 0, x = 100, y = 100\<rparr>, \<lparr>id' = 1, x = 200, y = 100\<rparr>],
             adj = [(0, []), (1, [])], nextId = 2, edgeMap = []\<rparr>"
  by (simp add: ex_two_def addNode_def Graph0_def Let_def js_plus1_def)

lemma ex_edge_eq:
  "ex_edge = \<lparr>nodes = [\<lparr>id' = 0, x = 100, y = 100\<rparr>, \<lparr>id' = 1, x = 200, y = 100\<rparr>],
              adj = [(0, [1]), (1, [0])], nextId = 2,
              edgeMap = [(UKey 0 1, \<lparr>a = 0, b = 1, directed = False\<rparr>)]\<rparr>"
  by (simp add: ex_edge_def ex_two_eq addEdge_def Let_def has_def adj_add_def set_add_def)

lemma ex_three_eq:
  "ex_three = \<lparr>nodes = [\<lparr>id' = 0, x = 100, y = 100\<rparr>, \<lparr>id' = 1, x = 200, y = 100\<rparr>,
                       \<lparr>id' = 2, x = 300, y = 100\<rparr>],
               adj = [(0, []), (1, []), (2, [])], nextId = 3, edgeMap = []\<rparr>"
  by (simp add: ex_three_def ex_two_eq addNode_def Let_def js_plus1_def)

lemma ex_stale_eq:
  "ex_stale = \<lparr>nodes = [\<lparr>id' = 0, x = 100, y = 100\<rparr>, \<lparr>id' = 1, x = 200, y = 100\<rparr>,
                       \<lparr>id' = 2, x = 300, y = 100\<rparr>],
               adj = [(0, [9]), (1, []), (2, []), (9, [0])], nextId = 10,
               edgeMap = [(UKey 0 9, \<lparr>a = 0, b = 9, directed = False\<rparr>)]\<rparr>"
  by (simp add: ex_stale_def ex_three_eq renameNode_def rename_edges_def addEdge_def Let_def has_def
        adj_add_def set_add_def js_plus1_def)


lemma ex_neg_eq:
  "ex_neg = \<lparr>nodes = [\<lparr>id' = 0, x = 100, y = 100\<rparr>, \<lparr>id' = - 1, x = 200, y = 100\<rparr>],
             adj = [(0, [- 1]), (- 1, [0])], nextId = 2,
             edgeMap = [(UKey (- 1) 0, \<lparr>a = - 1, b = 0, directed = False\<rparr>)]\<rparr>"
  by (simp add: ex_neg_def ex_edge_eq renameNode_def rename_edges_def rename_edge_def Let_def
        set_add_def set_delete_def js_plus1_def)

lemma ex_unsafe_eq:
  "ex_unsafe = \<lparr>nodes = [\<lparr>id' = 0, x = 100, y = 100\<rparr>, \<lparr>id' = 9007199254740992, x = 200, y = 100\<rparr>],
                adj = [(0, [9007199254740992]), (9007199254740992, [0])], nextId = 9007199254740992,
                edgeMap = [(UKey 0 9007199254740992, \<lparr>a = 0, b = 9007199254740992, directed = False\<rparr>)]\<rparr>"
  by (simp add: ex_unsafe_def ex_edge_eq renameNode_def rename_edges_def rename_edge_def Let_def
        set_add_def set_delete_def js_plus1_def)

lemma ex_big_eq:
  "ex_big = \<lparr>nodes = [\<lparr>id' = 0, x = 100, y = 100\<rparr>, \<lparr>id' = 4294967295, x = 200, y = 100\<rparr>],
             adj = [(0, [4294967295]), (4294967295, [0])], nextId = 4294967296,
             edgeMap = [(UKey 0 4294967295, \<lparr>a = 0, b = 4294967295, directed = False\<rparr>)]\<rparr>"
  by (simp add: ex_big_def ex_edge_eq renameNode_def rename_edges_def rename_edge_def Let_def
        set_add_def set_delete_def js_plus1_def)

lemma reachable_ex_two: "reachable ex_two"
  unfolding ex_two_def by (intro reachable.intros)

lemma reachable_ex_edge: "reachable ex_edge"
  unfolding ex_edge_def by (intro reachable.intros reachable_ex_two)

lemma reachable_ex_stale: "reachable ex_stale"
  unfolding ex_stale_def ex_three_def by (intro reachable.intros reachable_ex_two)


lemma reachable_ex_neg: "reachable ex_neg"
  unfolding ex_neg_def by (intro reachable.intros reachable_ex_edge)

lemma reachable_ex_unsafe: "reachable ex_unsafe"
  unfolding ex_unsafe_def by (intro reachable.intros reachable_ex_edge)

lemma reachable_ex_big: "reachable ex_big"
  unfolding ex_big_def by (intro reachable.intros reachable_ex_edge)

subsection \<open>addEdge: when it fails and what it inserts\<close>
text \<open>
  Claim C3, as stated, at a concrete input: on the graph with nodes 0 and 1 and the
  undirected edge 0-1, the canonical key of the pair (0, 1) is in the edge collection, yet
  \<^verbatim>\<open>addEdge(0, 1, true)\<close> returns true and changes the graph.  A directed edge is filed
  under the key \<^verbatim>\<open>`${a}>${b}`\<close>, which the undirected entry does not occupy.
\<close>

theorem addEdge_directed_counterexample:
  "0 \<in> node_ids ex_edge \<and> 1 \<in> node_ids ex_edge \<and> has (edgeMap ex_edge) (edgeKey 0 1) \<and>
   fst (addEdge ex_edge 0 1 True) = Inr True \<and> snd (addEdge ex_edge 0 1 True) \<noteq> ex_edge"
  by (simp add: ex_edge_eq node_ids_def has_def edgeKey_def addEdge_def Let_def adj_add_def set_add_def)

lemma neighbors_list_addEdge:
  assumes "addEdge g va vb d = (Inr True, g')"
  shows "neighbors g' p =
           (if p = va then set_add vb (neighbors g va)
            else if p = vb then set_add va (neighbors g vb) else neighbors g p)"
  using assms
  by (auto simp: addEdge_def Let_def neighbors_def adj_add_def update_conv'
           split: if_splits option.splits)

text \<open>
  Claim C3, amended.  For node ids \<open>va\<close>, \<open>vb\<close> of present nodes (each with its entry in
  the adjacency index), \<^verbatim>\<open>addEdge(va, vb, directed)\<close> looks up the key it files the edge
  under: the canonical key \<open>(min, max)\<close> when \<open>directed\<close> is false, the ordered key
  \<open>va > vb\<close> when it is true.  It returns false and leaves the graph unchanged when
  \<open>va = vb\<close> or that key is already in the edge collection; otherwise it returns true,
  appends one entry to the edge collection, adds \<open>vb\<close> to the neighbours of \<open>va\<close> and
  \<open>va\<close> to those of \<open>vb\<close>, and changes nothing else.
\<close>

theorem addEdge_spec:
  assumes "adj_covers_nodes g" and "va \<in> node_ids g" and "vb \<in> node_ids g"
  shows "let key = (if d then DKey va vb else edgeKey va vb);
             e = (if d then \<lparr>a = va, b = vb, directed = True\<rparr>
                  else \<lparr>a = min va vb, b = max va vb, directed = False\<rparr>)
         in (va = vb \<or> has (edgeMap g) key \<longrightarrow> addEdge g va vb d = (Inr False, g)) \<and>
            (va \<noteq> vb \<and> \<not> has (edgeMap g) key \<longrightarrow>
               fst (addEdge g va vb d) = Inr True \<and>
               edgeMap (snd (addEdge g va vb d)) = edgeMap g @ [(key, e)] \<and>
               neighbors (snd (addEdge g va vb d)) va = set_add vb (neighbors g va) \<and>
               neighbors (snd (addEdge g va vb d)) vb = set_add va (neighbors g vb) \<and>
               (\<forall>w. w \<noteq> va \<and> w \<noteq> vb \<longrightarrow>
                    neighbors (snd (addEdge g va vb d)) w = neighbors g w) \<and>
               nodes (snd (addEdge g va vb d)) = nodes g \<and>
               nextId (snd (addEdge g va vb d)) = nextId g)"
proof -
  have ha: "has (adj g) va" and hb: "has (adj g) vb"
    using assms by (auto simp: adj_covers_nodes_def node_ids_def)
  obtain r where r: "fst (addEdge g va vb d) = Inr r"
    using addEdge_no_throw[OF ha hb] by blast
  let ?key = "if d then DKey va vb else edgeKey va vb"
  let ?e = "if d then \<lparr>a = va, b = vb, directed = True\<rparr>
            else \<lparr>a = min va vb, b = max va vb, directed = False\<rparr>"
  have fail: "va = vb \<or> has (edgeMap g) ?key \<Longrightarrow> addEdge g va vb d = (Inr False, g)"
    by (auto simp: addEdge_def Let_def edgeKey_def)
  have ok: "fst (addEdge g va vb d) = Inr True \<and>
            edgeMap (snd (addEdge g va vb d)) = edgeMap g @ [(?key, ?e)]"
    if "va \<noteq> vb" "\<not> has (edgeMap g) ?key"
    using that r
    by (auto simp: addEdge_def Let_def edgeKey_def update_absent split: option.splits if_splits)
  have nb: "neighbors (snd (addEdge g va vb d)) p =
           (if p = va then set_add vb (neighbors g va)
            else if p = vb then set_add va (neighbors g vb) else neighbors g p)"
    if "va \<noteq> vb" "\<not> has (edgeMap g) ?key" for p
  proof -
    have "addEdge g va vb d = (Inr True, snd (addEdge g va vb d))"
      using ok[OF that] by (simp add: prod_eq_iff)
    from neighbors_list_addEdge[OF this] show ?thesis .
  qed
  show ?thesis
    unfolding Let_def
    using fail ok nb by (simp add: nodes_addEdge)
qed

text \<open>
  The amended claim C3 evaluated: the first \<^verbatim>\<open>addEdge(0, 1)\<close> on two isolated nodes
  succeeds, the second, with the endpoints swapped, is refused.
\<close>

theorem addEdge_spec_witness:
  "fst (addEdge ex_two 0 1 False) = Inr True \<and>
   edgeMap (snd (addEdge ex_two 0 1 False)) = [(UKey 0 1, \<lparr>a = 0, b = 1, directed = False\<rparr>)] \<and>
   neighbors (snd (addEdge ex_two 0 1 False)) 0 = [1] \<and>
   addEdge ex_edge 1 0 False = (Inr False, ex_edge)"
proof -
  have c: "adj_covers_nodes ex_two" "0 \<in> node_ids ex_two" "1 \<in> node_ids ex_two"
    by (simp_all add: ex_two_eq adj_covers_nodes_def node_ids_def has_def)
  have c': "adj_covers_nodes ex_edge" "0 \<in> node_ids ex_edge" "1 \<in> node_ids ex_edge"
    by (simp_all add: ex_edge_eq adj_covers_nodes_def node_ids_def has_def)
  have k: "\<not> has (edgeMap ex_two) (edgeKey 0 1)" "has (edgeMap ex_edge) (edgeKey 1 0)"
    by (simp_all add: ex_two_eq ex_edge_eq has_def edgeKey_def)
  show ?thesis
    using addEdge_spec[OF c, of False] addEdge_spec[OF c'(1) c'(3) c'(2), of False] k
    by (simp add: Let_def ex_two_eq neighbors_def set_add_def edgeKey_def)
qed












subsection \<open>renameNode on an id that is no node\<close>





subsection \<open>addEdge throws on a missing endpoint\<close>
text \<open>
  Claim C9.  \<^verbatim>\<open>addEdge\<close> is total only when both endpoints are ids of present nodes: there
  is a graph, built by the operations, and a pair \<open>va \<noteq> vb\<close> with an endpoint that is no
  node and a key that is absent, where the call throws a \<^verbatim>\<open>TypeError\<close> instead of returning
  false; and on every graph built by the operations, a call whose endpoints are both ids of
  present nodes returns.
\<close>

theorem addEdge_total_on_nodes:
  "(\<exists>g va vb d. reachable g \<and> va \<noteq> vb \<and> \<not> has (edgeMap g) (if d then DKey va vb else edgeKey va vb) \<and>
        (va \<notin> node_ids g \<or> vb \<notin> node_ids g) \<and> fst (addEdge g va vb d) = Inl TypeError) \<and>
   (\<forall>g va vb d. reachable g \<and> va \<in> node_ids g \<and> vb \<in> node_ids g \<longrightarrow>
        (\<exists>r. fst (addEdge g va vb d) = Inr r))"
proof (intro conjI allI impI)
  have "reachable ex_two \<and> (0::int) \<noteq> 5 \<and> \<not> has (edgeMap ex_two) (if False then DKey 0 5 else edgeKey 0 5) \<and>
        (0 \<notin> node_ids ex_two \<or> 5 \<notin> node_ids ex_two) \<and> fst (addEdge ex_two 0 5 False) = Inl TypeError"
    using reachable_ex_two
    by (simp add: ex_two_eq has_def node_ids_def addEdge_def Let_def adj_add_def set_add_def)
  then show "\<exists>g va vb d. reachable g \<and> va \<noteq> vb \<and> \<not> has (edgeMap g) (if d then DKey va vb else edgeKey va vb) \<and>
        (va \<notin> node_ids g \<or> vb \<notin> node_ids g) \<and> fst (addEdge g va vb d) = Inl TypeError"
    by blast
next
  fix g va vb d
  assume h: "reachable g \<and> va \<in> node_ids g \<and> vb \<in> node_ids g"
  then have "adj_covers_nodes g" by (simp add: reachable_covers)
  with h have "has (adj g) va" "has (adj g) vb"
    by (auto simp: adj_covers_nodes_def node_ids_def)
  then show "\<exists>r. fst (addEdge g va vb d) = Inr r" by (rule addEdge_no_throw)
qed

text \<open>
  Claim C9 evaluated: on two isolated nodes 0 and 1, \<^verbatim>\<open>addEdge(0, 1, true)\<close> returns true.
\<close>

theorem addEdge_total_on_nodes_witness:
  "reachable ex_two \<and> 0 \<in> node_ids ex_two \<and> 1 \<in> node_ids ex_two \<and>
   fst (addEdge ex_two 0 1 True) = Inr True"
proof -
  have c: "reachable ex_two \<and> 0 \<in> node_ids ex_two \<and> 1 \<in> node_ids ex_two"
    using reachable_ex_two by (simp add: ex_two_eq node_ids_def)
  have "\<exists>r. fst (addEdge ex_two 0 1 True) = Inr r"
    using addEdge_total_on_nodes c by blast
  then show ?thesis
    using c by (simp add: ex_two_eq addEdge_def Let_def has_def adj_add_def set_add_def)
qed

subsection \<open>Symmetry of the adjacency index\<close>
lemma renameNode_ex_stale:
  "renameNode ex_stale 1 9 =
     (True, \<lparr>nodes = [\<lparr>id' = 0, x = 100, y = 100\<rparr>, \<lparr>id' = 9, x = 200, y = 100\<rparr>,
                      \<lparr>id' = 2, x = 300, y = 100\<rparr>],
             adj = [(0, [9]), (2, []), (9, [])], nextId = 10,
             edgeMap = [(UKey 0 9, \<lparr>a = 0, b = 9, directed = False\<rparr>)]\<rparr>)"
  by (simp add: ex_stale_eq renameNode_def rename_edges_def rename_edge_def Let_def js_plus1_def)

text \<open>
  Claim C7 at its failing input.  The graph \<open>ex_stale\<close> is built by calls that all return
  normally, and its adjacency is symmetric.  \<^verbatim>\<open>renameNode(1, 9)\<close> renames the present node
  1 to 9, an id that no node has; it returns true and overwrites the adjacency entry that
  9 already had.  Afterwards 9 is a node, 9 is a neighbour of 0, and 0 is not a neighbour
  of 9: the adjacency is no longer symmetric.
\<close>

theorem renameNode_breaks_symmetry:
  "reachable ex_stale \<and> adj_symmetric ex_stale \<and> 1 \<in> node_ids ex_stale \<and> 9 \<notin> node_ids ex_stale \<and>
   fst (renameNode ex_stale 1 9) = True \<and>
   adj (snd (renameNode ex_stale 1 9)) = [(0, [9]), (2, []), (9, [])] \<and>
   9 \<in> node_ids (snd (renameNode ex_stale 1 9)) \<and>
   \<not> adj_symmetric (snd (renameNode ex_stale 1 9))"
  using reachable_ex_stale unfolding renameNode_ex_stale
  by (simp add: ex_stale_eq adj_symmetric_def neighbors_def node_ids_def)

text \<open>
  The failing input of claim C7 once more, in terms of the two neighbour sets.
\<close>

theorem renameNode_breaks_symmetry_witness:
  "9 \<in> set (neighbors (snd (renameNode ex_stale 1 9)) 0) \<and>
   0 \<notin> set (neighbors (snd (renameNode ex_stale 1 9)) 9)"
  using renameNode_breaks_symmetry by (simp add: neighbors_def)

text \<open>
  The five operations that keep the adjacency symmetric on every graph, with no other
  hypothesis (\<^verbatim>\<open>addEdge\<close> and \<^verbatim>\<open>deleteEdge\<close> when they return).  By \<open>sym_renameNode\<close> and
  \<open>sym_addNode\<close>, \<^verbatim>\<open>renameNode\<close> keeps it on the graphs whose neighbour sets hold only ids
  of present nodes, and \<^verbatim>\<open>addNode\<close> on those whose node ids are, besides, below the
  allocator.
\<close>

lemma adj_symmetric_kept:
  assumes "adj_symmetric g"
  shows "(\<forall>r. fst (addEdge g p q d) = Inr r \<longrightarrow> adj_symmetric (snd (addEdge g p q d))) \<and>
         (\<forall>r. fst (deleteEdge g p q d) = Inr r \<longrightarrow> adj_symmetric (snd (deleteEdge g p q d))) \<and>
         adj_symmetric (snd (deleteEdgeByKey g k)) \<and>
         adj_symmetric (snd (deleteNode g i)) \<and>
         adj_symmetric (clear g)"
proof (intro conjI allI impI)
  show "adj_symmetric (snd (addEdge g p q d))" if "fst (addEdge g p q d) = Inr r" for r
    by (rule sym_addEdge[OF assms(1) that])
  show "adj_symmetric (snd (deleteEdge g p q d))" if "fst (deleteEdge g p q d) = Inr r" for r
    by (rule sym_deleteEdge[OF assms(1) that])
  show "adj_symmetric (snd (deleteEdgeByKey g k))" by (rule sym_deleteEdgeByKey[OF assms(1)])
  show "adj_symmetric (snd (deleteNode g i))" by (rule sym_deleteNode[OF assms(1)])
  show "adj_symmetric (clear g)" by (rule sym_clear)
qed

subsection \<open>Node ids and the allocator\<close>
lemma js_plus1_unsafe: "js_plus1 9007199254740992 = 9007199254740992"
  by (simp add: js_plus1_def)

text \<open>
  Claim C10 at its failing inputs.  After \<^verbatim>\<open>renameNode(1, -1)\<close> the node id -1 is below
  the allocator, but it is no index of the arrays of \<^verbatim>\<open>analyze\<close>: \<^verbatim>\<open>disc[-1]\<close> is
  \<^verbatim>\<open>undefined\<close>.  After \<^verbatim>\<open>renameNode(1, 9007199254740992)\<close> the allocator is
  \<open>max(2, 2^53 + 1)\<close> as doubles compute it, which is \<open>2^53\<close>, the id of the renamed node:
  the node id is not below the allocator, and the next \<^verbatim>\<open>addNode\<close> returns the id of that
  node and leaves the allocator where it was.
\<close>

theorem ids_escape_bounds:
  "reachable ex_neg \<and> - 1 \<in> node_ids ex_neg \<and> ids_bounded ex_neg \<and>
   \<not> in_bounds (nextId ex_neg) (- 1) \<and>
   (case init_state ex_neg of Inl e \<Rightarrow> False | Inr st \<Rightarrow> disc st (- 1) = Undef) \<and>
   reachable ex_unsafe \<and> 9007199254740992 \<in> node_ids ex_unsafe \<and>
   nextId ex_unsafe = 9007199254740992 \<and> \<not> ids_bounded ex_unsafe \<and>
   fst (addNode ex_unsafe 100 100) = 9007199254740992 \<and>
   nextId (snd (addNode ex_unsafe 100 100)) = 9007199254740992"
proof -
  have 1: "- 1 \<in> node_ids ex_neg \<and> ids_bounded ex_neg \<and> \<not> in_bounds (nextId ex_neg) (- 1)"
    by (simp add: ex_neg_eq ids_bounded_def node_ids_def in_bounds_def)
  have 2: "case init_state ex_neg of Inl e \<Rightarrow> False | Inr st \<Rightarrow> disc st (- 1) = Undef"
    by (simp add: ex_neg_eq init_state_def new_Array_def in_bounds_def)
  have 3: "9007199254740992 \<in> node_ids ex_unsafe \<and> nextId ex_unsafe = 9007199254740992 \<and>
           \<not> ids_bounded ex_unsafe"
    by (simp add: ex_unsafe_eq ids_bounded_def node_ids_def)
  have 4: "fst (addNode ex_unsafe 100 100) = 9007199254740992 \<and>
           nextId (snd (addNode ex_unsafe 100 100)) = 9007199254740992"
    by (simp add: ex_unsafe_eq addNode_def Let_def js_plus1_unsafe)
  show ?thesis using reachable_ex_neg reachable_ex_unsafe 1 2 3 4 by blast
qed

text \<open>
  The second failing input of claim C10 once more: the id of the second node is the
  allocator, and it is the id that \<^verbatim>\<open>addNode\<close> returns.
\<close>

theorem ids_escape_bounds_witness:
  "id' (nodes ex_unsafe ! 1) = int (nextId ex_unsafe) \<and>
   fst (addNode ex_unsafe 100 100) = id' (nodes ex_unsafe ! 1)"
  using ids_escape_bounds by (simp add: ex_unsafe_eq)

text \<open>
  Where the allocator does stay above the node ids: every operation keeps
  \<open>id < nextId\<close>, \<^verbatim>\<open>addNode\<close> while \<^verbatim>\<open>nextId\<close> is below \<open>2^53\<close> and \<^verbatim>\<open>renameNode\<close> for a
  new id below \<open>2^53\<close>.
\<close>

lemma ids_bounded_kept:
  assumes "ids_bounded g"
  shows "(nextId g < 2 ^ 53 \<longrightarrow> ids_bounded (snd (addNode g px py))) \<and>
         ids_bounded (snd (addEdge g p q d)) \<and>
         ids_bounded (snd (deleteEdge g p q d)) \<and> ids_bounded (snd (deleteEdgeByKey g k)) \<and>
         ids_bounded (snd (deleteNode g i)) \<and>
         (j < 2 ^ 53 \<longrightarrow> ids_bounded (snd (renameNode g i j))) \<and>
         ids_bounded (clear g)"
proof (intro conjI impI)
  show "ids_bounded (snd (addNode g px py))" if "nextId g < 2 ^ 53"
    by (rule ids_bounded_addNode[OF assms that])
  show "ids_bounded (snd (addEdge g p q d))" by (rule ids_bounded_addEdge[OF assms])
  show "ids_bounded (snd (deleteEdge g p q d))" by (rule ids_bounded_deleteEdge[OF assms])
  show "ids_bounded (snd (deleteEdgeByKey g k))" by (rule ids_bounded_deleteEdgeByKey[OF assms])
  show "ids_bounded (snd (deleteNode g i))" by (rule ids_bounded_deleteNode[OF assms])
  show "ids_bounded (snd (renameNode g i j))" if "j < 2 ^ 53"
    by (rule ids_bounded_renameNode[OF assms that])
  show "ids_bounded (clear g)" by (rule ids_bounded_clear)
qed

section \<open>Properties of the analyzer\<close>

text \<open>
  The test of the array length, on \<open>int\<close>: the form in which the examples below are
  evaluated.
\<close>

lemma new_Array_code [code]:
  "new_Array n c =
     (if int n < 4294967296 then Inr (\<lambda>i. if in_bounds n i then Num c else Undef) else Inl RangeError)"
proof -
  have "n < 2 ^ 32 \<longleftrightarrow> int n < 4294967296"
    using of_nat_less_iff[of n "2 ^ 32", where 'a = int] by simp
  then show ?thesis by (simp add: new_Array_def)
qed

lemma fst_visitS: "fst (visitS ps u sl) = visit u (fst sl)"
  by (cases sl) (simp add: visit_def Let_def)

lemma fst_tree_edgeS: "fst (tree_edgeS ps u v sl) = tree_edge u v (fst sl)"
  by (cases sl) (simp add: tree_edge_def Let_def)

lemma fst_push_componentS: "fst (push_componentS ps ce cv sl) = push_component ce cv (fst sl)"
  by (cases sl) (simp add: push_component_def Let_def)

lemma fst_close_componentS: "fst (close_componentS ps u v sl) = close_component u v (fst sl)"
  by (cases sl) (simp add: close_component_def fst_push_componentS split: prod.splits
        del: push_componentS.simps)

lemma fst_after_childS: "fst (after_childS ps u v c sl) = after_child u v c (fst sl)"
  by (cases sl) (simp add: after_child_def fst_close_componentS Let_def split: prod.splits
        del: close_componentS.simps)

lemma fst_back_edgeS: "fst (back_edgeS ps u v sl) = back_edge u v (fst sl)"
  by (cases sl) (simp add: back_edge_def Let_def)

lemma fst_pop_restS: "fst (pop_restS ps sl) = pop_rest (fst sl)"
  by (cases sl) (simp add: pop_rest_def fst_push_componentS split: prod.splits
        del: push_componentS.simps)

lemma fst_dfsS:
  "map_option fst (dfsS ps n g u sl) = dfs n g u (fst sl)"
  "map_option fst (dfs_loopS ps n g u c vs sl) = dfs_loop n g u c vs (fst sl)"
proof (induction ps n g u sl and ps n g u c vs sl rule: dfsS_dfs_loopS.induct)
  case (1 ps g u sl)
  show ?case by simp
next
  case (2 ps n g u sl)
  then show ?case by (simp add: fst_visitS)
next
  case (3 ps n g u children sl)
  show ?case by simp
next
  case (4 ps n g u children v vs sl)
  show ?case
  proof (cases "v \<notin> node_ids g")
    case True
    then show ?thesis using 4(1) by simp
  next
    case present: False
    show ?thesis
    proof (cases "js_seq (disc (fst sl) v) (Num (- 1))")
      case True
      note ih = 4(2)[OF present True] 4(3)[OF present True]
      show ?thesis
      proof (cases "dfsS ps n g v (tree_edgeS ps u v sl)")
        case None
        then have "dfs n g v (tree_edge u v (fst sl)) = None"
          using ih(1) by (simp add: fst_tree_edgeS)
        with None present True show ?thesis by simp
      next
        case (Some sl')
        then have "dfs n g v (tree_edge u v (fst sl)) = Some (fst sl')"
          using ih(1) by (simp add: fst_tree_edgeS)
        with Some present True ih(2)[OF Some] show ?thesis
          by (simp add: fst_after_childS)
      qed
    next
      case unv: False
      show ?thesis
      proof (cases "\<not> js_seq (Num v) (parent (fst sl) u) \<and> js_lt (disc (fst sl) v) (disc (fst sl) u)")
        case True
        then show ?thesis using present unv 4(4)[OF present unv True]
          by (simp add: fst_back_edgeS)
      next
        case False
        then show ?thesis using present unv 4(5)[OF present unv False] by auto
      qed
    qed
  qed
qed

lemma fst_rootsS: "map_option fst (rootsS ps n g nds sl) = roots n g nds (fst sl)"
proof (induction nds arbitrary: sl)
  case Nil
  show ?case by simp
next
  case (Cons nd nds)
  show ?case
  proof (cases "js_seq (disc (fst sl) (id' nd)) (Num (- 1))")
    case True
    show ?thesis
    proof (cases "dfsS ps n g (id' nd) sl")
      case None
      then have "dfs n g (id' nd) (fst sl) = None" using fst_dfsS(1)[of ps n g "id' nd" sl] by simp
      with None True show ?thesis by simp
    next
      case (Some sl')
      then have "dfs n g (id' nd) (fst sl) = Some (fst sl')" using fst_dfsS(1)[of ps n g "id' nd" sl] by simp
      with Some True Cons.IH[of "pop_restS ps sl'"] show ?thesis by (simp add: fst_pop_restS)
    qed
  next
    case False
    then show ?thesis using Cons.IH by simp
  qed
qed

lemma ex_path_eq:
  "ex_path = \<lparr>nodes = [\<lparr>id' = 0, x = 100, y = 100\<rparr>, \<lparr>id' = 1, x = 200, y = 100\<rparr>,
                      \<lparr>id' = 2, x = 300, y = 100\<rparr>, \<lparr>id' = 3, x = 400, y = 100\<rparr>],
              adj = [(0, [1]), (1, [0, 2]), (2, [1, 3]), (3, [2])], nextId = 4,
              edgeMap = [(UKey 0 1, \<lparr>a = 0, b = 1, directed = False\<rparr>),
                         (UKey 1 2, \<lparr>a = 1, b = 2, directed = False\<rparr>),
                         (UKey 2 3, \<lparr>a = 2, b = 3, directed = False\<rparr>)]\<rparr>"
  by (simp add: ex_path_def ex_two_eq addNode_def addEdge_def Let_def has_def adj_add_def set_add_def
        js_plus1_def)

lemma init_state_eq:
  "init_state g = (if nextId g < 2 ^ 32 then Inr (start_state g) else Inl RangeError)"
  by (simp add: init_state_def new_Array_def start_state_def)

lemma analyze_eq:
  "analyze depth g =
     (if nextId g < 2 ^ 32
      then (case roots depth g (nodes g) (start_state g) of
              None \<Rightarrow> Inl RangeError
            | Some st \<Rightarrow> Inr (make_result st))
      else Inl RangeError)"
  by (simp add: analyze_def init_state_eq)

lemma analyzeWithSteps_eq:
  "analyzeWithSteps depth g =
     (if nextId g < 2 ^ 32
      then (case rootsS pushStep depth g (nodes g) (start_state g, []) of
              None \<Rightarrow> Inl RangeError
            | Some (st, steps) \<Rightarrow> Inr (make_result st, steps))
      else Inl RangeError)"
  by (simp add: analyzeWithSteps_def init_state_eq)

lemma ghost_run_eq:
  "ghost_run depth g =
     (if nextId g < 2 ^ 32 then rootsS ghostStep depth g (nodes g) (start_state g, []) else None)"
  by (simp add: ghost_run_def init_state_eq)

lemma js_seq_Num: "js_seq v (Num c) \<longleftrightarrow> v = Num c"
  by (auto simp: js_seq_def)

lemma disc_push_component [simp]: "disc (push_component ce cv st) = disc st"
  and time_push_component [simp]: "time (push_component ce cv st) = time st"
  by (simp_all add: push_component_def)

lemma disc_close_component [simp]: "disc (close_component u v st) = disc st"
  and time_close_component [simp]: "time (close_component u v st) = time st"
  by (simp_all add: close_component_def split: prod.splits)

lemma disc_after_child [simp]: "disc (after_child u v c st) = disc st"
  and time_after_child [simp]: "time (after_child u v c st) = time st"
  by (simp_all add: after_child_def Let_def)

lemma disc_back_edge [simp]: "disc (back_edge u v st) = disc st"
  and time_back_edge [simp]: "time (back_edge u v st) = time st"
  by (simp_all add: back_edge_def Let_def)

lemma disc_tree_edge [simp]: "disc (tree_edge u v st) = disc st"
  and time_tree_edge [simp]: "time (tree_edge u v st) = time st"
  by (simp_all add: tree_edge_def)

lemma disc_pop_rest [simp]: "disc (pop_rest st) = disc st"
  and time_pop_rest [simp]: "time (pop_rest st) = time st"
  by (simp_all add: pop_rest_def split: prod.splits)

lemma unvisited_visit: "0 \<le> time st \<Longrightarrow> unvisited (visit u st) = unvisited st - {u}"
  by (auto simp: unvisited_def visit_def Let_def)

lemma time_visit: "time (visit u st) = time st + 1"
  by (simp add: visit_def Let_def)

lemma unvisited_simps [simp]:
  "unvisited (tree_edge u v st) = unvisited st"
  "unvisited (after_child u v c st) = unvisited st"
  "unvisited (back_edge u v st) = unvisited st"
  "unvisited (pop_rest st) = unvisited st"
  by (simp_all add: unvisited_def)

lemma todo_finite: "finite (todo g st)"
  by (simp add: todo_def node_ids_def)

lemma todo_visit: "0 \<le> time st \<Longrightarrow> todo g (visit u st) = todo g st - {u}"
  by (auto simp: todo_def unvisited_visit)

lemma todo_simps [simp]:
  "todo g (tree_edge u v st) = todo g st"
  "todo g (after_child u v c st) = todo g st"
  "todo g (back_edge u v st) = todo g st"
  "todo g (pop_rest st) = todo g st"
  by (simp_all add: todo_def)

lemma dfs_terminates:
  "u \<in> node_ids g \<Longrightarrow> card (todo g st) \<le> n \<Longrightarrow> 0 \<le> time st \<Longrightarrow> disc st u = Num (- 1) \<Longrightarrow>
     \<exists>st'. dfs n g u st = Some st' \<and> todo g st' \<subseteq> todo g st \<and> time st \<le> time st'"
  "card (todo g st) \<le> n \<Longrightarrow> 0 \<le> time st \<Longrightarrow>
     \<exists>st'. dfs_loop n g u c vs st = Some st' \<and> todo g st' \<subseteq> todo g st \<and> time st \<le> time st'"
proof (induction n g u st and n g u c vs st rule: dfs_dfs_loop.induct)
  case (1 g u st)
  then have "u \<in> todo g st" by (simp add: todo_def unvisited_def)
  then have "card (todo g st) > 0" using todo_finite[of g st] by (auto simp: card_gt_0_iff)
  with 1 show ?case by simp
next
  case (2 n g u st)
  have u: "u \<in> todo g st" using 2 by (simp add: todo_def unvisited_def)
  have uv: "todo g (visit u st) = todo g st - {u}" using 2 by (simp add: todo_visit)
  have "card (todo g (visit u st)) \<le> n"
    using u 2(3) todo_finite[of g st] by (simp add: uv)
  moreover have "0 \<le> time (visit u st)" using 2(4) by (simp add: time_visit)
  ultimately obtain st' where
    "dfs_loop n g u 0 (neighbors g u) (visit u st) = Some st'"
    "todo g st' \<subseteq> todo g (visit u st)" "time (visit u st) \<le> time st'"
    using 2(1) by blast
  then show ?case by (auto simp: uv time_visit)
next
  case (3 n g u children st)
  show ?case by simp
next
  case (4 n g u children v vs st)
  show ?case
  proof (cases "v \<notin> node_ids g")
    case True
    then show ?thesis using 4(1)[OF True 4(6,7)] by simp
  next
    case present: False
    then have vn: "v \<in> node_ids g" by simp
    show ?thesis
    proof (cases "js_seq (disc st v) (Num (- 1))")
      case True
      then have dv: "disc (tree_edge u v st) v = Num (- 1)" by (simp add: js_seq_Num)
      obtain st1 where st1: "dfs n g v (tree_edge u v st) = Some st1"
        "todo g st1 \<subseteq> todo g st" "time st \<le> time st1"
        using 4(2)[OF present True vn _ _ dv] 4(6,7) by auto
      have c: "card (todo g (after_child u v (Suc children) st1)) \<le> n"
        using st1(2) 4(6) card_mono[OF todo_finite[of g st], of "todo g st1"] by simp
      have t: "0 \<le> time (after_child u v (Suc children) st1)"
        using st1(3) 4(7) by simp
      obtain st' where "dfs_loop n g u (Suc children) vs (after_child u v (Suc children) st1) = Some st'"
        "todo g st' \<subseteq> todo g st1" "time st1 \<le> time st'"
        using 4(3)[OF present True st1(1) c t] by auto
      then show ?thesis using present True st1 by auto
    next
      case unv: False
      show ?thesis
      proof (cases "\<not> js_seq (Num v) (parent st u) \<and> js_lt (disc st v) (disc st u)")
        case True
        show ?thesis using 4(4)[OF present unv True] 4(6,7) present unv True by simp
      next
        case False
        show ?thesis using 4(5)[OF present unv False 4(6,7)] present unv False by auto
      qed
    qed
  qed
qed

lemma dfs_depth_mono:
  "dfs n g u st = Some st' \<Longrightarrow> n \<le> m \<Longrightarrow> dfs m g u st = Some st'"
  "dfs_loop n g u c vs st = Some st' \<Longrightarrow> n \<le> m \<Longrightarrow> dfs_loop m g u c vs st = Some st'"
proof (induction n g u st and n g u c vs st arbitrary: st' m and st' m rule: dfs_dfs_loop.induct)
  case (1 g u st)
  then show ?case by simp
next
  case (2 n g u st)
  obtain m' where m': "m = Suc m'" "n \<le> m'" using 2(3) by (cases m) auto
  from 2(2) have l: "dfs_loop n g u 0 (neighbors g u) (visit u st) = Some st'" by simp
  have "dfs_loop m' g u 0 (neighbors g u) (visit u st) = Some st'" by (rule 2(1)[OF l m'(2)])
  then show ?case by (simp add: m'(1))
next
  case (3 n g u children st)
  then show ?case by simp
next
  case (4 n g u children v vs st)
  show ?case
  proof (cases "v \<notin> node_ids g")
    case True
    from 4(6) True have l: "dfs_loop n g u children vs st = Some st'" by simp
    have "dfs_loop m g u children vs st = Some st'" by (rule 4(1)[OF True l 4(7)])
    then show ?thesis using True by simp
  next
    case present: False
    show ?thesis
    proof (cases "js_seq (disc st v) (Num (- 1))")
      case True
      obtain st1 where st1: "dfs n g v (tree_edge u v st) = Some st1"
        and rest: "dfs_loop n g u (Suc children) vs (after_child u v (Suc children) st1) = Some st'"
        using 4(6) present True by (simp split: option.splits)
      have a: "dfs m g v (tree_edge u v st) = Some st1"
        by (rule 4(2)[OF present True st1 4(7)])
      have b: "dfs_loop m g u (Suc children) vs (after_child u v (Suc children) st1) = Some st'"
        by (rule 4(3)[OF present True st1 rest 4(7)])
      show ?thesis using a b present True by simp
    next
      case unv: False
      show ?thesis
      proof (cases "\<not> js_seq (Num v) (parent st u) \<and> js_lt (disc st v) (disc st u)")
        case True
        from 4(6) present unv True have l: "dfs_loop n g u children vs (back_edge u v st) = Some st'"
          by simp
        have "dfs_loop m g u children vs (back_edge u v st) = Some st'"
          by (rule 4(4)[OF present unv True l 4(7)])
        then show ?thesis using present unv True by simp
      next
        case False
        from 4(6) present unv False have l: "dfs_loop n g u children vs st = Some st'"
          by auto
        have "dfs_loop m g u children vs st = Some st'"
          by (rule 4(5)[OF present unv False l 4(7)])
        then show ?thesis using present unv False by auto
      qed
    qed
  qed
qed

lemma roots_terminates:
  "set nds \<subseteq> set (nodes g) \<Longrightarrow> card (todo g st) \<le> n \<Longrightarrow> 0 \<le> time st \<Longrightarrow>
     \<exists>st'. roots n g nds st = Some st'"
proof (induction nds arbitrary: st)
  case Nil
  show ?case by simp
next
  case (Cons nd nds)
  have sub: "set nds \<subseteq> set (nodes g)" and nn: "id' nd \<in> node_ids g"
    using Cons.prems(1) by (auto simp: node_ids_def)
  show ?case
  proof (cases "js_seq (disc st (id' nd)) (Num (- 1))")
    case True
    then have d: "disc st (id' nd) = Num (- 1)" by (simp add: js_seq_Num)
    obtain st1 where st1: "dfs n g (id' nd) st = Some st1"
      "todo g st1 \<subseteq> todo g st" "time st \<le> time st1"
      using dfs_terminates(1)[OF nn Cons.prems(2,3) d] by blast
    have c: "card (todo g (pop_rest st1)) \<le> n"
      using st1(2) Cons.prems(2) card_mono[OF todo_finite[of g st], of "todo g st1"] by simp
    have t: "0 \<le> time (pop_rest st1)" using st1(3) Cons.prems(3) by simp
    show ?thesis using Cons.IH[OF sub c t] True st1(1) by simp
  next
    case False
    then show ?thesis using Cons.IH[OF sub Cons.prems(2,3)] by simp
  qed
qed

lemma roots_depth_mono:
  "roots n g nds st = Some st' \<Longrightarrow> n \<le> m \<Longrightarrow> roots m g nds st = Some st'"
proof (induction nds arbitrary: st)
  case Nil
  then show ?case by simp
next
  case (Cons nd nds)
  show ?case
  proof (cases "js_seq (disc st (id' nd)) (Num (- 1))")
    case True
    obtain st1 where st1: "dfs n g (id' nd) st = Some st1"
      and rest: "roots n g nds (pop_rest st1) = Some st'"
      using Cons.prems(1) True by (simp split: option.splits)
    have a: "dfs m g (id' nd) st = Some st1" by (rule dfs_depth_mono(1)[OF st1 Cons.prems(2)])
    have b: "roots m g nds (pop_rest st1) = Some st'" by (rule Cons.IH[OF rest Cons.prems(2)])
    show ?thesis using a b True by simp
  next
    case False
    from Cons.prems(1) False have "roots n g nds st = Some st'" by simp
    from Cons.IH[OF this Cons.prems(2)] show ?thesis using False by simp
  qed
qed

lemma roots_start_total:
  assumes "length (nodes g) \<le> n"
  shows "\<exists>st'. roots n g (nodes g) (start_state g) = Some st'"
proof (rule roots_terminates)
  show "set (nodes g) \<subseteq> set (nodes g)" by simp
  have "card (todo g (start_state g)) \<le> card (node_ids g)"
    by (rule card_mono) (auto simp: todo_def node_ids_def)
  also have "\<dots> \<le> length (nodes g)"
    unfolding node_ids_def using card_length[of "map id' (nodes g)"] by simp
  finally show "card (todo g (start_state g)) \<le> n" using assms by simp
  show "0 \<le> time (start_state g)" by (simp add: start_state_def)
qed

lemma analyze_mono:
  assumes "analyze d g = Inr r" "d \<le> d'"
  shows "analyze d' g = Inr r"
proof -
  from assms(1) have n: "nextId g < 2 ^ 32" by (auto simp: analyze_eq split: if_splits)
  from assms(1) n obtain st where st: "roots d g (nodes g) (start_state g) = Some st"
    and r: "r = make_result st"
    by (auto simp: analyze_eq split: option.splits)
  from roots_depth_mono[OF st assms(2)] n r show ?thesis by (simp add: analyze_eq)
qed

lemma analyze_total:
  assumes "nextId g < 2 ^ 32" "length (nodes g) \<le> depth"
  shows "\<exists>r. analyze depth g = Inr r \<and> (\<forall>d \<ge> length (nodes g). analyze d g = Inr r)"
proof -
  obtain st' where st': "roots (length (nodes g)) g (nodes g) (start_state g) = Some st'"
    using roots_start_total[of g "length (nodes g)"] by blast
  have "analyze d g = Inr (make_result st')" if "length (nodes g) \<le> d" for d
    using roots_depth_mono[OF st' that] assms(1) by (simp add: analyze_eq)
  then show ?thesis using assms(2) by blast
qed

lemma analyze_RangeError: "analyze depth g = Inl e \<Longrightarrow> e = RangeError"
  by (auto simp: analyze_eq split: if_splits option.splits)

lemma dfs_invariant:
  assumes v: "\<And>u st. I st \<Longrightarrow> I (visit u st)"
    and t: "\<And>u v st. I st \<Longrightarrow> I (tree_edge u v st)"
    and c: "\<And>u v k st. I st \<Longrightarrow> I (after_child u v k st)"
    and b: "\<And>u v st. I st \<Longrightarrow> I (back_edge u v st)"
  shows "dfs n g u st = Some st' \<Longrightarrow> I st \<Longrightarrow> I st'"
    and "dfs_loop n g u k vs st = Some st' \<Longrightarrow> I st \<Longrightarrow> I st'"
proof (induction n g u st and n g u k vs st arbitrary: st' and st' rule: dfs_dfs_loop.induct)
  case (1 g u st)
  then show ?case by simp
next
  case (2 n g u st)
  from 2(2) have l: "dfs_loop n g u 0 (neighbors g u) (visit u st) = Some st'" by simp
  show ?case by (rule 2(1)[OF l v[OF 2(3)]])
next
  case (3 n g u children st)
  then show ?case by simp
next
  case (4 n g u children w vs st)
  show ?case
  proof (cases "w \<notin> node_ids g")
    case True
    from 4(6) True have l: "dfs_loop n g u children vs st = Some st'" by simp
    show ?thesis by (rule 4(1)[OF True l 4(7)])
  next
    case present: False
    show ?thesis
    proof (cases "js_seq (disc st w) (Num (- 1))")
      case True
      obtain st1 where st1: "dfs n g w (tree_edge u w st) = Some st1"
        and rest: "dfs_loop n g u (Suc children) vs (after_child u w (Suc children) st1) = Some st'"
        using 4(6) present True by (simp split: option.splits)
      have "I st1" by (rule 4(2)[OF present True st1 t[OF 4(7)]])
      then have "I (after_child u w (Suc children) st1)" by (rule c)
      then show ?thesis by (rule 4(3)[OF present True st1 rest])
    next
      case unv: False
      show ?thesis
      proof (cases "\<not> js_seq (Num w) (parent st u) \<and> js_lt (disc st w) (disc st u)")
        case True
        from 4(6) present unv True have l: "dfs_loop n g u children vs (back_edge u w st) = Some st'"
          by simp
        show ?thesis by (rule 4(4)[OF present unv True l b[OF 4(7)]])
      next
        case False
        from 4(6) present unv False have l: "dfs_loop n g u children vs st = Some st'"
          by auto
        show ?thesis by (rule 4(5)[OF present unv False l 4(7)])
      qed
    qed
  qed
qed

lemma roots_invariant:
  assumes v: "\<And>u st. I st \<Longrightarrow> I (visit u st)"
    and t: "\<And>u v st. I st \<Longrightarrow> I (tree_edge u v st)"
    and c: "\<And>u v k st. I st \<Longrightarrow> I (after_child u v k st)"
    and b: "\<And>u v st. I st \<Longrightarrow> I (back_edge u v st)"
    and p: "\<And>st. I st \<Longrightarrow> I (pop_rest st)"
  shows "roots n g nds st = Some st' \<Longrightarrow> I st \<Longrightarrow> I st'"
proof (induction nds arbitrary: st)
  case Nil
  then show ?case by simp
next
  case (Cons nd nds)
  show ?case
  proof (cases "js_seq (disc st (id' nd)) (Num (- 1))")
    case True
    obtain st1 where st1: "dfs n g (id' nd) st = Some st1"
      and rest: "roots n g nds (pop_rest st1) = Some st'"
      using Cons.prems(1) True by (simp split: option.splits)
    have "I st1" by (rule dfs_invariant(1)[of I, OF v t c b st1 Cons.prems(2)])
    then have "I (pop_rest st1)" by (rule p)
    then show ?thesis by (rule Cons.IH[OF rest])
  next
    case False
    from Cons.prems(1) False have "roots n g nds st = Some st'" by simp
    then show ?thesis by (rule Cons.IH[OF _ Cons.prems(2)])
  qed
qed

lemma distinct_set_add: "distinct s \<Longrightarrow> distinct (set_add v s)"
  by (simp add: set_add_def)

lemma pop_until_verts:
  "pop_until u v es ce cv = (es', ce', cv') \<Longrightarrow> distinct cv \<Longrightarrow> set cv = endpoints ce \<Longrightarrow>
     distinct cv' \<and> set cv' = endpoints ce' \<and> (ce \<noteq> [] \<longrightarrow> ce' \<noteq> []) \<and> (es \<noteq> [] \<longrightarrow> ce' \<noteq> [])"
proof (induction es arbitrary: ce cv)
  case Nil
  then show ?case by simp
next
  case (Cons e es)
  let ?ce = "ce @ [e]" and ?cv = "set_add (snd e) (set_add (fst e) cv)"
  have d: "distinct ?cv" using Cons.prems(2) by (simp add: distinct_set_add)
  have s: "set ?cv = endpoints ?ce" using Cons.prems(3) by (auto simp: endpoints_def)
  show ?case
  proof (cases "(fst e = u \<and> snd e = v) \<or> (fst e = v \<and> snd e = u)")
    case True
    then have "es' = es" "ce' = ?ce" "cv' = ?cv" using Cons.prems(1) by (auto simp: Let_def)
    then show ?thesis using d s by simp
  next
    case False
    then have "pop_until u v es ?ce ?cv = (es', ce', cv')" using Cons.prems(1) by (auto simp: Let_def)
    from Cons.IH[OF this d s] show ?thesis by simp
  qed
qed

lemma pop_all_verts:
  "pop_all es ce cv = (ce', cv') \<Longrightarrow> distinct cv \<Longrightarrow> set cv = endpoints ce \<Longrightarrow>
     distinct cv' \<and> set cv' = endpoints ce'"
proof (induction es arbitrary: ce cv)
  case Nil
  then show ?case by simp
next
  case (Cons e es)
  let ?ce = "ce @ [e]" and ?cv = "set_add (snd e) (set_add (fst e) cv)"
  have d: "distinct ?cv" using Cons.prems(2) by (simp add: distinct_set_add)
  have s: "set ?cv = endpoints ?ce" using Cons.prems(3) by (auto simp: endpoints_def)
  from Cons.prems(1) have "pop_all es ?ce ?cv = (ce', cv')" by simp
  from Cons.IH[OF this d s] show ?case .
qed

lemma comps_ok_push:
  "comps_ok st \<Longrightarrow> distinct cv \<Longrightarrow> set cv = endpoints ce \<Longrightarrow> comps_ok (push_component ce cv st)"
  by (auto simp: comps_ok_def push_component_def endpoints_def)

lemma comps_ok_edgeStack: "comps_ok (st\<lparr>edgeStack := es\<rparr>) = comps_ok st"
  by (simp add: comps_ok_def)

lemma comps_ok_close: "comps_ok st \<Longrightarrow> comps_ok (close_component u v st)"
proof -
  assume ok: "comps_ok st"
  obtain es ce cv where p: "pop_until u v (edgeStack st) [] [] = (es, ce, cv)"
    by (metis prod_cases3)
  have "distinct cv \<and> set cv = endpoints ce"
    using pop_until_verts[OF p] by (simp add: endpoints_def)
  then show ?thesis
    using ok p by (simp add: close_component_def comps_ok_push comps_ok_edgeStack)
qed

lemma comps_ok_pop_rest: "comps_ok st \<Longrightarrow> comps_ok (pop_rest st)"
proof -
  assume ok: "comps_ok st"
  obtain ce cv where p: "pop_all (edgeStack st) [] [] = (ce, cv)" by (metis prod.exhaust)
  have "distinct cv \<and> set cv = endpoints ce"
    using pop_all_verts[OF p] by (simp add: endpoints_def)
  then show ?thesis
    using ok p by (simp add: pop_rest_def comps_ok_push comps_ok_edgeStack)
qed

lemma comps_ok_after_child: "comps_ok st \<Longrightarrow> comps_ok (after_child u v k st)"
proof -
  assume ok: "comps_ok st"
  have "comps_ok st4" if "ap st4 = ap st \<or> ap st4 = set_add u (ap st)"
    "tstate.components st4 = tstate.components st" for st4
    using that ok by (auto simp: comps_ok_def distinct_set_add)
  then show ?thesis
    unfolding after_child_def Let_def
    by (intro comps_ok_close) (auto simp: set_add_def)
qed

lemma comps_ok_visit: "comps_ok st \<Longrightarrow> comps_ok (visit u st)"
  by (simp add: comps_ok_def visit_def Let_def)

lemma comps_ok_tree_edge: "comps_ok st \<Longrightarrow> comps_ok (tree_edge u v st)"
  by (simp add: comps_ok_def tree_edge_def)

lemma comps_ok_back_edge: "comps_ok st \<Longrightarrow> comps_ok (back_edge u v st)"
  by (simp add: comps_ok_def back_edge_def Let_def)

lemma comps_ok_init: "comps_ok (start_state g)"
  by (simp add: comps_ok_def start_state_def)

lemma roots_comps_ok:
  "roots n g nds st = Some st' \<Longrightarrow> comps_ok st \<Longrightarrow> comps_ok st'"
  by (rule roots_invariant[of comps_ok])
     (simp_all add: comps_ok_visit comps_ok_tree_edge comps_ok_after_child comps_ok_back_edge
        comps_ok_pop_rest)

lemma upt_shift: "[j..<j + Suc n] = j # [Suc j..<Suc j + n]"
  by (subst upt_rec) simp

lemma zip_upt_Cons:
  "zip (c # cs) [j..<j + length (c # cs)] = (c, j) # zip cs [Suc j..<Suc j + length cs]"
proof -
  have "[j..<j + length (c # cs)] = j # [Suc j..<Suc j + length cs]"
    using upt_shift[of j "length cs"] by (simp only: list.size add_Suc_right add_0_right)
  then show ?thesis by (simp only: zip_Cons_Cons)
qed

lemma inner_fold:
  "map_of (foldl (\<lambda>m e. AList.update (edgeKey (fst e) (snd e)) idx m) m es) k =
     (if k \<in> ekey ` set es then Some idx else map_of m k)"
  by (induction es arbitrary: m) (auto simp: update_conv' ekey_def)

lemma inner_fold_distinct:
  "distinct (map fst m) \<Longrightarrow>
     distinct (map fst (foldl (\<lambda>m e. AList.update (edgeKey (fst e) (snd e)) idx m) m es))"
  by (induction es arbitrary: m) (auto simp: distinct_update)

lemma outer_fold:
  fixes cs :: "comp list"
  defines "step \<equiv> (\<lambda>m (c, idx). foldl (\<lambda>m e. AList.update (edgeKey (fst e) (snd e)) idx m) m (edges c))"
  shows "distinct (map fst m) \<Longrightarrow>
     distinct (map fst (foldl step m (zip cs [j..<j + length cs]))) \<and>
     (\<forall>k i. map_of (foldl step m (zip cs [j..<j + length cs])) k = Some i \<longrightarrow>
        (map_of m k = Some i \<and> (\<forall>c \<in> set cs. k \<notin> ekey ` set (edges c))) \<or>
        (j \<le> i \<and> i < j + length cs \<and> k \<in> ekey ` set (edges (cs ! (i - j))))) \<and>
     (\<forall>k. (\<exists>c \<in> set cs. k \<in> ekey ` set (edges c)) \<or> map_of m k \<noteq> None \<longrightarrow>
        map_of (foldl step m (zip cs [j..<j + length cs])) k \<noteq> None)"
proof (induction cs arbitrary: m j)
  case Nil
  then show ?case by simp
next
  case (Cons c cs)
  let ?m1 = "foldl (\<lambda>m e. AList.update (edgeKey (fst e) (snd e)) j m) m (edges c)"
  have z: "zip (c # cs) [j..<j + length (c # cs)] = (c, j) # zip cs [Suc j..<Suc j + length cs]"
    by (rule zip_upt_Cons)
  have f: "foldl step m (zip (c # cs) [j..<j + length (c # cs)]) =
           foldl step ?m1 (zip cs [Suc j..<Suc j + length cs])"
    unfolding z by (simp add: step_def)
  have d1: "distinct (map fst ?m1)" using Cons.prems by (rule inner_fold_distinct)
  note ih = Cons.IH[OF d1, of "Suc j"]
  have m1: "map_of ?m1 k = (if k \<in> ekey ` set (edges c) then Some j else map_of m k)" for k
    by (rule inner_fold)
  show ?case
    unfolding f
  proof (intro conjI allI impI)
    show "distinct (map fst (foldl step ?m1 (zip cs [Suc j..<Suc j + length cs])))"
      using ih by blast
  next
    fix k i
    assume a: "map_of (foldl step ?m1 (zip cs [Suc j..<Suc j + length cs])) k = Some i"
    from ih a have
      "(map_of ?m1 k = Some i \<and> (\<forall>c \<in> set cs. k \<notin> ekey ` set (edges c))) \<or>
       (Suc j \<le> i \<and> i < Suc j + length cs \<and> k \<in> ekey ` set (edges (cs ! (i - Suc j))))"
      by blast
    then show "(map_of m k = Some i \<and> (\<forall>c \<in> set (c # cs). k \<notin> ekey ` set (edges c))) \<or>
        (j \<le> i \<and> i < j + length (c # cs) \<and> k \<in> ekey ` set (edges ((c # cs) ! (i - j))))"
    proof
      assume b: "map_of ?m1 k = Some i \<and> (\<forall>c \<in> set cs. k \<notin> ekey ` set (edges c))"
      show ?thesis
      proof (cases "k \<in> ekey ` set (edges c)")
        case True
        with b m1[of k] have "i = j" by simp
        with True show ?thesis by simp
      next
        case False
        with b m1[of k] show ?thesis by simp
      qed
    next
      assume b: "Suc j \<le> i \<and> i < Suc j + length cs \<and> k \<in> ekey ` set (edges (cs ! (i - Suc j)))"
      then have "i - j = Suc (i - Suc j)" by arith
      then have "(c # cs) ! (i - j) = cs ! (i - Suc j)" by (simp only: nth_Cons_Suc)
      with b show ?thesis by simp
    qed
  next
    fix k
    assume a: "(\<exists>c \<in> set (c # cs). k \<in> ekey ` set (edges c)) \<or> map_of m k \<noteq> None"
    have "(\<exists>c \<in> set cs. k \<in> ekey ` set (edges c)) \<or> map_of ?m1 k \<noteq> None"
      using a m1[of k] by auto
    with ih show "map_of (foldl step ?m1 (zip cs [Suc j..<Suc j + length cs])) k \<noteq> None"
      by blast
  qed
qed

lemma build_edgeToComp_ok:
  "distinct (map fst (build_edgeToComp cs)) \<and>
   (\<forall>(k, i) \<in> set (build_edgeToComp cs). i < length cs \<and> k \<in> ekey ` set (edges (cs ! i))) \<and>
   (\<forall>c \<in> set cs. \<forall>e \<in> set (edges c). has (build_edgeToComp cs) (ekey e))"
proof -
  have dn: "distinct (map fst ([] :: (edge_key \<times> nat) list))" by simp
  note o = outer_fold[of "[]" cs 0, unfolded add_0 diff_zero, folded build_edgeToComp_def, OF dn]
  have d: "distinct (map fst (build_edgeToComp cs))" by (rule conjunct1[OF o])
  have o2: "map_of (build_edgeToComp cs) k = Some i \<Longrightarrow>
        (map_of [] k = Some i \<and> (\<forall>c \<in> set cs. k \<notin> ekey ` set (edges c))) \<or>
        (0 \<le> i \<and> i < length cs \<and> k \<in> ekey ` set (edges (cs ! i)))" for k i
    by (rule conjunct1[OF conjunct2[OF o], rule_format])
  have o3: "\<exists>c \<in> set cs. k \<in> ekey ` set (edges c) \<Longrightarrow>
        map_of (build_edgeToComp cs) k \<noteq> None" for k
    using conjunct2[OF conjunct2[OF o], THEN spec, of k] by (rule mp) (rule disjI1)
  have p2: "i < length cs \<and> k \<in> ekey ` set (edges (cs ! i))" if "(k, i) \<in> set (build_edgeToComp cs)" for k i
  proof -
    have "map_of (build_edgeToComp cs) k = Some i" using that d by simp
    from o2[OF this] show ?thesis by simp
  qed
  have p3: "has (build_edgeToComp cs) (ekey e)" if "c \<in> set cs" "e \<in> set (edges c)" for c e
  proof -
    have "\<exists>c \<in> set cs. ekey e \<in> ekey ` set (edges c)" using that by blast
    then have "map_of (build_edgeToComp cs) (ekey e) \<noteq> None" by (rule o3)
    then show ?thesis by (simp add: has_def)
  qed
  show ?thesis
  proof (intro conjI ballI)
    show "distinct (map fst (build_edgeToComp cs))" by (rule d)
  next
    fix ki assume m: "ki \<in> set (build_edgeToComp cs)"
    obtain k i where ki: "ki = (k, i)" by (cases ki)
    show "case ki of (k, i) \<Rightarrow> i < length cs \<and> k \<in> ekey ` set (edges (cs ! i))"
      using p2[of k i] m ki by simp
  next
    fix c e assume "c \<in> set cs" "e \<in> set (edges c)"
    then show "has (build_edgeToComp cs) (ekey e)" by (rule p3)
  qed
qed

lemma wf_make_result: "comps_ok st \<Longrightarrow> wf_result (make_result st)"
  using build_edgeToComp_ok[of "tstate.components st"]
  unfolding wf_result_def make_result_def comps_ok_def
  by (simp add: ekey_def[abs_def])

lemma reachable_ex_path: "reachable ex_path"
  unfolding ex_path_def by (intro reachable.intros reachable_ex_two)

lemma analyze_ex_path:
  "analyze 4 ex_path =
     Inr \<lparr>articulationPoints = [2, 1], bridges = [(2, 3), (1, 2), (0, 1)],
           components = [\<lparr>edges = [(2, 3)], verts = [2, 3]\<rparr>, \<lparr>edges = [(1, 2)], verts = [1, 2]\<rparr>,
                         \<lparr>edges = [(0, 1)], verts = [0, 1]\<rparr>],
           edgeToComp = [(UKey 2 3, 0), (UKey 1 2, 1), (UKey 0 1, 2)]\<rparr>"
  by code_simp

lemma analyze_ex_path_short: "analyze 3 ex_path = Inl RangeError"
  by code_simp

lemma analyze_ex_big: "analyze depth ex_big = Inl RangeError"
  by (simp add: analyze_eq ex_big_eq)

text \<open>
  Claim C8, as stated, at two concrete inputs, both built by the operations, with every
  edge between present nodes, symmetric adjacency and all node ids below the allocator.
  On \<open>ex_big\<close>, where \<^verbatim>\<open>renameNode(1, 4294967295)\<close> has raised \<^verbatim>\<open>nextId\<close> to \<open>2^32\<close>,
  \<^verbatim>\<open>analyze\<close> throws the \<^verbatim>\<open>RangeError\<close> of \<^verbatim>\<open>new Array\<close>.  On the path 0-1-2-3, called
  where the call stack has room for three nested calls of \<^verbatim>\<open>dfs\<close>, it throws the
  \<^verbatim>\<open>RangeError\<close> of the fourth.
\<close>

theorem analyze_throws:
  "reachable ex_big \<and> edges_wellformed ex_big \<and> adj_symmetric ex_big \<and> ids_bounded ex_big \<and>
   analyze 2 ex_big = Inl RangeError \<and>
   reachable ex_path \<and> edges_wellformed ex_path \<and> adj_symmetric ex_path \<and> ids_bounded ex_path \<and>
   analyze 3 ex_path = Inl RangeError"
proof -
  have 1: "edges_wellformed ex_big" "adj_symmetric ex_big" "ids_bounded ex_big"
    by (simp_all add: ex_big_eq edges_wellformed_def adj_symmetric_def ids_bounded_def
          neighbors_def node_ids_def edgeKey_def)
  have 2: "edges_wellformed ex_path" "adj_symmetric ex_path" "ids_bounded ex_path"
    by (simp_all add: ex_path_eq edges_wellformed_def adj_symmetric_def ids_bounded_def
          neighbors_def node_ids_def edgeKey_def)
  show ?thesis
    using 1 2 reachable_ex_big reachable_ex_path analyze_ex_big[of 2] analyze_ex_path_short by simp
qed

text \<open>
  Claim C8, amended.  For every graph, well-formed or not, whose \<^verbatim>\<open>nextId\<close> is below
  \<open>2^32\<close>, \<^verbatim>\<open>analyze\<close>, called where the call stack has room for as many nested calls of
  \<^verbatim>\<open>dfs\<close> as the graph has nodes, terminates without an error and returns a result,
  the same for any larger room.  The result is well formed: the articulation points are
  distinct; every component has at least one edge, and its vertices are exactly the
  endpoints of its edges, each listed once; the edge-to-component map has one entry for
  the key of every edge of every component, and the entry of a key is the index of a
  component that holds an edge with that key.  A graph without nodes yields the empty
  result.
\<close>

theorem analyze_terminates:
  assumes "nextId g < 2 ^ 32" and "length (nodes g) \<le> depth"
  shows "\<exists>r. analyze depth g = Inr r \<and> (\<forall>d \<ge> length (nodes g). analyze d g = Inr r) \<and>
     wf_result r \<and>
     (nodes g = [] \<longrightarrow>
        r = \<lparr>articulationPoints = [], bridges = [], components = [], edgeToComp = []\<rparr>)"
proof -
  obtain st' where st': "roots (length (nodes g)) g (nodes g) (start_state g) = Some st'"
    using roots_start_total[of g "length (nodes g)"] by blast
  have ok: "comps_ok st'" by (rule roots_comps_ok[OF st' comps_ok_init])
  have a: "analyze d g = Inr (make_result st')" if "length (nodes g) \<le> d" for d
    using roots_depth_mono[OF st' that] assms(1) by (simp add: analyze_eq)
  have e: "make_result st' =
      \<lparr>articulationPoints = [], bridges = [], components = [], edgeToComp = []\<rparr>"
    if "nodes g = []"
    using st' that by (auto simp: make_result_def start_state_def build_edgeToComp_def)
  show ?thesis using a[OF assms(2)] a wf_make_result[OF ok] e by blast
qed

text \<open>
  The amended claim C8 evaluated on the path 0-1-2-3 (with room for 4 and for 9 calls) and
  on the empty graph.
\<close>

theorem analyze_terminates_witness:
  "analyze 4 ex_path =
     Inr \<lparr>articulationPoints = [2, 1], bridges = [(2, 3), (1, 2), (0, 1)],
           components = [\<lparr>edges = [(2, 3)], verts = [2, 3]\<rparr>, \<lparr>edges = [(1, 2)], verts = [1, 2]\<rparr>,
                         \<lparr>edges = [(0, 1)], verts = [0, 1]\<rparr>],
           edgeToComp = [(UKey 2 3, 0), (UKey 1 2, 1), (UKey 0 1, 2)]\<rparr> \<and>
   analyze 9 ex_path = analyze 4 ex_path \<and>
   wf_result \<lparr>articulationPoints = [2, 1], bridges = [(2, 3), (1, 2), (0, 1)],
           components = [\<lparr>edges = [(2, 3)], verts = [2, 3]\<rparr>, \<lparr>edges = [(1, 2)], verts = [1, 2]\<rparr>,
                         \<lparr>edges = [(0, 1)], verts = [0, 1]\<rparr>],
           edgeToComp = [(UKey 2 3, 0), (UKey 1 2, 1), (UKey 0 1, 2)]\<rparr> \<and>
   analyze 0 Graph0 = Inr \<lparr>articulationPoints = [], bridges = [], components = [], edgeToComp = []\<rparr>"
proof -
  have n: "nextId ex_path < 2 ^ 32" "length (nodes ex_path) \<le> 4" "length (nodes ex_path) = 4"
    "nodes Graph0 = []" "nextId Graph0 < 2 ^ 32" "length (nodes Graph0) \<le> 0"
    by (simp_all add: ex_path_eq Graph0_def)
  obtain r where r: "analyze 4 ex_path = Inr r" "\<forall>d \<ge> length (nodes ex_path). analyze d ex_path = Inr r"
    "wf_result r"
    using analyze_terminates[OF n(1,2)] by blast
  from r(2) n(3) have f: "analyze 9 ex_path = Inr r" by simp
  have g0: "analyze 0 Graph0 =
      Inr \<lparr>articulationPoints = [], bridges = [], components = [], edgeToComp = []\<rparr>"
    using analyze_terminates[OF n(5,6)] n(4) by auto
  show ?thesis
    using r(1,3) f g0 analyze_ex_path by simp
qed

text \<open>
  Beyond the amended claim C8: \<^verbatim>\<open>analyze\<close> throws when \<^verbatim>\<open>nextId\<close> is \<open>2^32\<close> or more, and
  a \<^verbatim>\<open>RangeError\<close> is the only error it ever throws.
\<close>

lemma analyze_errors:
  "(2 ^ 32 \<le> nextId g \<longrightarrow> analyze depth g = Inl RangeError) \<and> analyze depth g \<noteq> Inl TypeError"
proof
  show "2 ^ 32 \<le> nextId g \<longrightarrow> analyze depth g = Inl RangeError" by (simp add: analyze_eq)
  show "analyze depth g \<noteq> Inl TypeError" using analyze_RangeError[of depth g TypeError] by auto
qed

text \<open>
  Claim C6.  On the path with nodes 0, 1, 2, 3 and edges 0-1, 1-2, 2-3, built by
  \<^verbatim>\<open>addNode\<close> and \<^verbatim>\<open>addEdge\<close>, \<^verbatim>\<open>analyze\<close>, called where the call stack has room for the
  four nested calls of \<^verbatim>\<open>dfs\<close> that a path of four nodes takes, returns three bridges,
  which are the three edges as unordered pairs, and the articulation points 1 and 2.  The
  same holds for every order of the node list and of the neighbour sets of 1 and 2, the
  only orders the traversal depends on.
\<close>

theorem analyze_path:
  assumes "4 \<le> depth"
  shows "path_result (analyze depth ex_path) \<and>
   (\<forall>ns \<in> set (filter distinct (List.n_lists 4 [0, 1, 2, 3])).
      \<forall>n1 \<in> set [[0, 2], [2, 0]]. \<forall>n2 \<in> set [[1, 3], [3, 1]].
        path_result (analyze depth (path_graph ns n1 n2)))"
proof -
  have b: "path_result (analyze 4 ex_path) \<and>
   (\<forall>ns \<in> set (filter distinct (List.n_lists 4 [0, 1, 2, 3])).
      \<forall>n1 \<in> set [[0, 2], [2, 0]]. \<forall>n2 \<in> set [[1, 3], [3, 1]].
        path_result (analyze 4 (path_graph ns n1 n2)))"
    by code_simp
  have m: "path_result (analyze depth g)" if "path_result (analyze 4 g)" for g
  proof (cases "analyze 4 g")
    case (Inl e)
    with that show ?thesis by (simp add: path_result_def)
  next
    case (Inr r)
    from analyze_mono[OF Inr assms] that Inr show ?thesis by simp
  qed
  show ?thesis using b m by blast
qed

text \<open>
  Claim C6 evaluated for the node order 3, 1, 0, 2 with both neighbour sets reversed.
\<close>

theorem analyze_path_witness:
  "[3, 1, 0, 2] \<in> set (filter distinct (List.n_lists 4 [0, 1, 2, 3 :: int])) \<and>
   analyze 4 (path_graph [3, 1, 0, 2] [2, 0] [3, 1]) =
     Inr \<lparr>articulationPoints = [1, 2], bridges = [(1, 0), (2, 1), (3, 2)],
           components = [\<lparr>edges = [(1, 0)], verts = [1, 0]\<rparr>, \<lparr>edges = [(2, 1)], verts = [2, 1]\<rparr>,
                         \<lparr>edges = [(3, 2)], verts = [3, 2]\<rparr>],
           edgeToComp = [(UKey 0 1, 0), (UKey 1 2, 1), (UKey 2 3, 2)]\<rparr> \<and>
   path_result (analyze 4 (path_graph [3, 1, 0, 2] [2, 0] [3, 1]))"
proof -
  have m: "[3, 1, 0, 2] \<in> set (filter distinct (List.n_lists 4 [0, 1, 2, 3 :: int]))"
    by code_simp
  have v: "analyze 4 (path_graph [3, 1, 0, 2] [2, 0] [3, 1]) =
     Inr \<lparr>articulationPoints = [1, 2], bridges = [(1, 0), (2, 1), (3, 2)],
           components = [\<lparr>edges = [(1, 0)], verts = [1, 0]\<rparr>, \<lparr>edges = [(2, 1)], verts = [2, 1]\<rparr>,
                         \<lparr>edges = [(3, 2)], verts = [3, 2]\<rparr>],
           edgeToComp = [(UKey 0 1, 0), (UKey 1 2, 1), (UKey 2 3, 2)]\<rparr>"
    by code_simp
  have "path_result (analyze 4 (path_graph [3, 1, 0, 2] [2, 0] [3, 1]))"
    using analyze_path[of 4] m by simp
  with m v show ?thesis by simp
qed

text \<open>
  Claim C5 at its failing input.  The graph \<open>ex_neg\<close> is built by \<^verbatim>\<open>addNode\<close>,
  \<^verbatim>\<open>addNode\<close>, \<^verbatim>\<open>addEdge(0, 1)\<close>, \<^verbatim>\<open>renameNode(1, -1)\<close>.  Both endpoints of its only edge
  are present nodes, it has no self-loop and no duplicate edge, and its adjacency is
  symmetric.  \<^verbatim>\<open>analyze\<close>, with room for at least the one call of \<^verbatim>\<open>dfs\<close> it makes,
  returns no component at all: the node -1 is not an index of \<^verbatim>\<open>disc\<close>, so it is never
  visited, and from node 0 the neighbour -1 is mistaken for the parent marker -1.  The
  edge between -1 and 0 appears in no component.
\<close>

theorem analyze_drops_edge:
  assumes "1 \<le> depth"
  shows "reachable ex_neg \<and> edges_wellformed ex_neg \<and> adj_symmetric ex_neg \<and>
   map_of (edgeMap ex_neg) (UKey (- 1) 0) = Some \<lparr>a = - 1, b = 0, directed = False\<rparr> \<and>
   analyze depth ex_neg =
     Inr \<lparr>articulationPoints = [], bridges = [], components = [], edgeToComp = []\<rparr>"
proof -
  have "edges_wellformed ex_neg" "adj_symmetric ex_neg"
    "map_of (edgeMap ex_neg) (UKey (- 1) 0) = Some \<lparr>a = - 1, b = 0, directed = False\<rparr>"
    by (simp_all add: ex_neg_eq edges_wellformed_def adj_symmetric_def neighbors_def node_ids_def edgeKey_def)
  moreover have "analyze 1 ex_neg =
      Inr \<lparr>articulationPoints = [], bridges = [], components = [], edgeToComp = []\<rparr>"
    by code_simp
  then have "analyze depth ex_neg =
      Inr \<lparr>articulationPoints = [], bridges = [], components = [], edgeToComp = []\<rparr>"
    using assms by (rule analyze_mono)
  ultimately show ?thesis using reachable_ex_neg by simp
qed

text \<open>
  The failing input of claim C5 once more: the canonical key of the pair (0, -1) is in the
  edge collection, and the list of components that \<^verbatim>\<open>analyze\<close> returns is empty.
\<close>

theorem analyze_drops_edge_witness:
  "has (edgeMap ex_neg) (edgeKey 0 (- 1)) \<and>
   analyze 1 ex_neg = Inr \<lparr>articulationPoints = [], bridges = [], components = [], edgeToComp = []\<rparr>"
  using analyze_drops_edge[of 1] by (simp add: has_def edgeKey_def)

text \<open>
  Claim C1.  For every graph, \<^verbatim>\<open>analyze\<close> and \<^verbatim>\<open>analyzeWithSteps\<close>, called with the same
  room on the call stack, either both throw the same error or both return, and then the
  result half of what \<^verbatim>\<open>analyzeWithSteps\<close> returns is the result of \<^verbatim>\<open>analyze\<close>: the same
  articulation points, bridges and components in the same order, and the same
  edge-to-component map.  The results are equal also when the two are called with
  different room and both return.  Both return when \<^verbatim>\<open>nextId\<close> is below \<open>2^32\<close> and the
  stack has room for as many nested calls of \<^verbatim>\<open>dfs\<close> as the graph has nodes.
\<close>

theorem analyze_eq_analyzeWithSteps:
  "analyze depth g = map_sum id fst (analyzeWithSteps depth g) \<and>
   (\<forall>d r r' steps. analyze depth g = Inr r \<and> analyzeWithSteps d g = Inr (r', steps) \<longrightarrow> r' = r) \<and>
   (nextId g < 2 ^ 32 \<and> length (nodes g) \<le> depth \<longrightarrow>
      (\<exists>r steps. analyzeWithSteps depth g = Inr (r, steps) \<and> analyze depth g = Inr r))"
proof -
  have e: "analyze n g = map_sum id fst (analyzeWithSteps n g)" for n
  proof -
    have r: "roots n g (nodes g) (start_state g) =
             map_option fst (rootsS pushStep n g (nodes g) (start_state g, []))"
      using fst_rootsS[of pushStep n g "nodes g" "(start_state g, [])"] by simp
    show ?thesis
      unfolding analyze_eq analyzeWithSteps_eq r
      by (cases "rootsS pushStep n g (nodes g) (start_state g, [])") auto
  qed
  have x: "r' = r" if "analyze depth g = Inr r" "analyzeWithSteps d g = Inr (r', steps)" for d r r' steps
  proof -
    from that(2) have "analyze d g = Inr r'" by (simp add: e)
    then have "analyze (max depth d) g = Inr r'" by (rule analyze_mono) simp
    moreover from that(1) have "analyze (max depth d) g = Inr r" by (rule analyze_mono) simp
    ultimately show ?thesis by simp
  qed
  have t: "\<exists>r steps. analyzeWithSteps depth g = Inr (r, steps) \<and> analyze depth g = Inr r"
    if h: "nextId g < 2 ^ 32 \<and> length (nodes g) \<le> depth"
  proof -
    obtain r where r: "analyze depth g = Inr r" using analyze_total[of g depth] h by blast
    then show ?thesis using e[of depth] by (cases "analyzeWithSteps depth g") auto
  qed
  show ?thesis using e x t by blast
qed

text \<open>
  Claim C1 evaluated on the graph with the single edge 0-1, with room for two calls and
  with room for one.
\<close>

theorem analyze_eq_analyzeWithSteps_witness:
  "analyzeWithSteps 2 ex_edge =
     Inr (\<lparr>articulationPoints = [], bridges = [(0, 1)],
            components = [\<lparr>edges = [(0, 1)], verts = [0, 1]\<rparr>], edgeToComp = [(UKey 0 1, 0)]\<rparr>,
           [Visit 0 (Num 1) (Num 1), PushEdge 0 1 False, Visit 1 (Num 2) (Num 2),
            UpdateLow 0 (Num 1) (Child 1), MarkBridge 0 1, PopComponent 0 [(0, 1)] [0, 1]]) \<and>
   analyze 2 ex_edge =
     Inr \<lparr>articulationPoints = [], bridges = [(0, 1)],
           components = [\<lparr>edges = [(0, 1)], verts = [0, 1]\<rparr>], edgeToComp = [(UKey 0 1, 0)]\<rparr> \<and>
   analyze 1 ex_edge = Inl RangeError \<and> analyzeWithSteps 1 ex_edge = Inl RangeError"
proof -
  have s: "analyzeWithSteps 2 ex_edge =
     Inr (\<lparr>articulationPoints = [], bridges = [(0, 1)],
            components = [\<lparr>edges = [(0, 1)], verts = [0, 1]\<rparr>], edgeToComp = [(UKey 0 1, 0)]\<rparr>,
           [Visit 0 (Num 1) (Num 1), PushEdge 0 1 False, Visit 1 (Num 2) (Num 2),
            UpdateLow 0 (Num 1) (Child 1), MarkBridge 0 1, PopComponent 0 [(0, 1)] [0, 1]])"
    by code_simp
  have s1: "analyzeWithSteps 1 ex_edge = Inl RangeError" by code_simp
  show ?thesis
    using analyze_eq_analyzeWithSteps[of 2 ex_edge] analyze_eq_analyzeWithSteps[of 1 ex_edge] s s1
    by simp
qed

lemma erase_visitS: "erase (visitS ghostStep u sl) = visitS pushStep u (erase sl)"
  by (cases sl) (simp add: erase_def ghostStep_def pushStep_def Let_def)

lemma erase_tree_edgeS: "erase (tree_edgeS ghostStep u v sl) = tree_edgeS pushStep u v (erase sl)"
  by (cases sl) (simp add: erase_def ghostStep_def pushStep_def Let_def)

lemma erase_push_componentS:
  "erase (push_componentS ghostStep ce cv sl) = push_componentS pushStep ce cv (erase sl)"
  by (cases sl) (simp add: erase_def ghostStep_def pushStep_def Let_def)

lemma erase_pair: "erase (st, gl) = (st, map fst gl)"
  by (simp add: erase_def)

lemma erase_close_componentS:
  "erase (close_componentS ghostStep u v sl) = close_componentS pushStep u v (erase sl)"
proof (cases sl)
  case (Pair st gl)
  obtain es ce cv where p: "pop_until u v (edgeStack st) [] [] = (es, ce, cv)"
    by (metis prod_cases3)
  show ?thesis
    unfolding Pair erase_pair close_componentS.simps p
    using erase_push_componentS[of ce cv "(st\<lparr>edgeStack := es\<rparr>, gl)"]
    by (simp add: erase_pair del: push_componentS.simps)
qed

lemma erase_after_childS:
  "erase (after_childS ghostStep u v c sl) = after_childS pushStep u v c (erase sl)"
proof (cases sl)
  case (Pair st gl)
  show ?thesis
    unfolding Pair erase_pair after_childS.simps
    by (simp add: Let_def erase_close_componentS erase_pair ghostStep_def pushStep_def
          split: prod.splits del: close_componentS.simps)
qed

lemma erase_back_edgeS: "erase (back_edgeS ghostStep u v sl) = back_edgeS pushStep u v (erase sl)"
  by (cases sl) (simp add: erase_def ghostStep_def pushStep_def Let_def)

lemma erase_pop_restS: "erase (pop_restS ghostStep sl) = pop_restS pushStep (erase sl)"
proof (cases sl)
  case (Pair st gl)
  obtain ce cv where p: "pop_all (edgeStack st) [] [] = (ce, cv)" by (metis prod.exhaust)
  show ?thesis
    unfolding Pair erase_pair pop_restS.simps p
    using erase_push_componentS[of ce cv "(st\<lparr>edgeStack := []\<rparr>, gl)"]
    by (simp add: erase_pair del: push_componentS.simps)
qed

lemma fst_erase [simp]: "fst (erase sl) = fst sl"
  by (simp add: erase_def)

lemma erase_dfsS:
  "map_option erase (dfsS ghostStep n g u sl) = dfsS pushStep n g u (erase sl)"
  "map_option erase (dfs_loopS ghostStep n g u c vs sl) = dfs_loopS pushStep n g u c vs (erase sl)"
proof (induction "ghostStep" n g u sl and "ghostStep" n g u c vs sl rule: dfsS_dfs_loopS.induct)
  case (1 g u sl)
  show ?case by simp
next
  case (2 n g u sl)
  then show ?case by (simp add: erase_visitS)
next
  case (3 n g u children sl)
  show ?case by simp
next
  case (4 n g u children v vs sl)
  show ?case
  proof (cases "v \<notin> node_ids g")
    case True
    then show ?thesis using 4(1) by simp
  next
    case present: False
    show ?thesis
    proof (cases "js_seq (disc (fst sl) v) (Num (- 1))")
      case True
      note ih = 4(2)[OF present True] 4(3)[OF present True]
      show ?thesis
      proof (cases "dfsS ghostStep n g v (tree_edgeS ghostStep u v sl)")
        case None
        then have "dfsS pushStep n g v (tree_edgeS pushStep u v (erase sl)) = None"
          using ih(1) by (simp add: erase_tree_edgeS)
        with None present True show ?thesis by simp
      next
        case (Some sl')
        then have "dfsS pushStep n g v (tree_edgeS pushStep u v (erase sl)) = Some (erase sl')"
          using ih(1) by (simp add: erase_tree_edgeS)
        with Some present True ih(2)[OF Some] show ?thesis
          by (simp add: erase_after_childS)
      qed
    next
      case unv: False
      show ?thesis
      proof (cases "\<not> js_seq (Num v) (parent (fst sl) u) \<and> js_lt (disc (fst sl) v) (disc (fst sl) u)")
        case True
        then show ?thesis using present unv 4(4)[OF present unv True]
          by (simp add: erase_back_edgeS)
      next
        case False
        then show ?thesis using present unv 4(5)[OF present unv False] by auto
      qed
    qed
  qed
qed

lemma erase_rootsS:
  "map_option erase (rootsS ghostStep n g nds sl) = rootsS pushStep n g nds (erase sl)"
proof (induction nds arbitrary: sl)
  case Nil
  show ?case by simp
next
  case (Cons nd nds)
  show ?case
  proof (cases "js_seq (disc (fst sl) (id' nd)) (Num (- 1))")
    case True
    show ?thesis
    proof (cases "dfsS ghostStep n g (id' nd) sl")
      case None
      then have "dfsS pushStep n g (id' nd) (erase sl) = None"
        using erase_dfsS(1)[of n g "id' nd" sl] by simp
      with None True show ?thesis by simp
    next
      case (Some sl')
      then have "dfsS pushStep n g (id' nd) (erase sl) = Some (erase sl')"
        using erase_dfsS(1)[of n g "id' nd" sl] by simp
      with Some True Cons.IH[of "pop_restS ghostStep sl'"] show ?thesis
        by (simp add: erase_pop_restS)
    qed
  next
    case False
    then show ?thesis using Cons.IH by simp
  qed
qed

lemma dfsS_invariant:
  assumes v: "\<And>u sl. I sl \<Longrightarrow> I (visitS ps u sl)"
    and t: "\<And>u v sl. I sl \<Longrightarrow> I (tree_edgeS ps u v sl)"
    and c: "\<And>u v k sl. I sl \<Longrightarrow> I (after_childS ps u v k sl)"
    and b: "\<And>u v sl. I sl \<Longrightarrow> I (back_edgeS ps u v sl)"
  shows "dfsS ps n g u sl = Some sl' \<Longrightarrow> I sl \<Longrightarrow> I sl'"
    and "dfs_loopS ps n g u k vs sl = Some sl' \<Longrightarrow> I sl \<Longrightarrow> I sl'"
  using assms
proof (induction ps n g u sl and ps n g u k vs sl arbitrary: sl' and sl' rule: dfsS_dfs_loopS.induct)
  case (1 ps g u sl)
  then show ?case by simp
next
  case (2 ps n g u sl)
  note h = "2.prems"(3-6)
  from "2.prems"(1) have l: "dfs_loopS ps n g u 0 (neighbors g u) (visitS ps u sl) = Some sl'" by simp
  have i: "I (visitS ps u sl)" by (rule h(1)[OF "2.prems"(2)])
  show ?case by (rule "2.IH"[OF l i h])
next
  case (3 ps n g u children sl)
  then show ?case by simp
next
  case (4 ps n g u children w vs sl)
  note h = "4.prems"(3-6)
  note run = "4.prems"(1) and inv = "4.prems"(2)
  show ?case
  proof (cases "w \<notin> node_ids g")
    case True
    from run True have l: "dfs_loopS ps n g u children vs sl = Some sl'" by simp
    show ?thesis by (rule "4.IH"(1)[OF True l inv h])
  next
    case present: False
    show ?thesis
    proof (cases "js_seq (disc (fst sl) w) (Num (- 1))")
      case True
      obtain sl1 where sl1: "dfsS ps n g w (tree_edgeS ps u w sl) = Some sl1"
        and rest: "dfs_loopS ps n g u (Suc children) vs (after_childS ps u w (Suc children) sl1) = Some sl'"
        using run present True by (simp split: option.splits)
      have "I (tree_edgeS ps u w sl)" by (rule h(2)[OF inv])
      then have "I sl1" by (rule "4.IH"(2)[OF present True sl1 _ h])
      then have "I (after_childS ps u w (Suc children) sl1)" by (rule h(3))
      then show ?thesis by (rule "4.IH"(3)[OF present True sl1 rest _ h])
    next
      case unv: False
      show ?thesis
      proof (cases "\<not> js_seq (Num w) (parent (fst sl) u) \<and> js_lt (disc (fst sl) w) (disc (fst sl) u)")
        case True
        from run present unv True have l: "dfs_loopS ps n g u children vs (back_edgeS ps u w sl) = Some sl'"
          by simp
        have "I (back_edgeS ps u w sl)" by (rule h(4)[OF inv])
        then show ?thesis by (rule "4.IH"(4)[OF present unv True l _ h])
      next
        case False
        from run present unv False have l: "dfs_loopS ps n g u children vs sl = Some sl'"
          by auto
        show ?thesis by (rule "4.IH"(5)[OF present unv False l inv h])
      qed
    qed
  qed
qed

lemma rootsS_invariant:
  assumes v: "\<And>u sl. I sl \<Longrightarrow> I (visitS ps u sl)"
    and t: "\<And>u v sl. I sl \<Longrightarrow> I (tree_edgeS ps u v sl)"
    and c: "\<And>u v k sl. I sl \<Longrightarrow> I (after_childS ps u v k sl)"
    and b: "\<And>u v sl. I sl \<Longrightarrow> I (back_edgeS ps u v sl)"
    and p: "\<And>sl. I sl \<Longrightarrow> I (pop_restS ps sl)"
  shows "rootsS ps n g nds sl = Some sl' \<Longrightarrow> I sl \<Longrightarrow> I sl'"
proof (induction nds arbitrary: sl)
  case Nil
  then show ?case by simp
next
  case (Cons nd nds)
  show ?case
  proof (cases "js_seq (disc (fst sl) (id' nd)) (Num (- 1))")
    case True
    obtain sl1 where sl1: "dfsS ps n g (id' nd) sl = Some sl1"
      and rest: "rootsS ps n g nds (pop_restS ps sl1) = Some sl'"
      using Cons.prems(1) True by (simp split: option.splits)
    have "I sl1" by (rule dfsS_invariant(1)[of I ps, OF v t c b sl1 Cons.prems(2)])
    then have "I (pop_restS ps sl1)" by (rule p)
    then show ?thesis by (rule Cons.IH[OF rest])
  next
    case False
    from Cons.prems(1) False have "rootsS ps n g nds sl = Some sl'" by simp
    then show ?thesis by (rule Cons.IH[OF _ Cons.prems(2)])
  qed
qed

lemma rep_snoc: "rep (L @ [s]) = applyStep s (rep L)"
  by (simp add: rep_def)

lemma applyStepsUpTo_take:
  assumes "i < length L"
  shows "applyStepsUpTo (int i) L = rep (take (Suc i) L)"
proof -
  have "foldl (\<lambda>rs i. if i < length L then applyStep (L ! i) rs else rs) r [0..<k] =
        foldl (\<lambda>rs s. applyStep s rs) r (take k L)" if "k \<le> length L" for k r
    using that
  proof (induction k)
    case 0
    show ?case by simp
  next
    case (Suc k)
    then have "take (Suc k) L = take k L @ [L ! k]" by (simp add: take_Suc_conv_app_nth)
    with Suc show ?case by simp
  qed
  from this[of "Suc i" replay0] assms show ?thesis
    by (simp add: applyStepsUpTo_def rep_def nat_add_distrib)
qed

lemma ghost_inv_log:
  assumes "ghost_inv (st, gl)" and "agrees st1 (map fst gl @ [s])" and "0 \<le> time st1"
  shows "ghost_inv (st1, ghostStep s st1 gl)"
proof -
  have "agrees (snd ((gl @ [(s, st1)]) ! i)) (map fst (take (Suc i) (gl @ [(s, st1)])))"
    if "i < length (gl @ [(s, st1)])" for i
  proof (cases "i < length gl")
    case True
    then show ?thesis using assms(1)
      by (simp add: ghost_inv_def snapshots_agree_def nth_append)
  next
    case False
    with that have "i = length gl" by simp
    then show ?thesis using assms(2) by simp
  qed
  then show ?thesis
    using assms(2,3) by (simp add: ghost_inv_def snapshots_agree_def ghostStep_def)
qed

lemma silent_apply:
  "silent s \<Longrightarrow> visitedNodes (applyStep s rs) = visitedNodes rs \<and> pushedEdges (applyStep s rs) = pushedEdges rs"
  by (cases s) (simp_all add: silent_def)

lemma ghost_inv_silent:
  assumes "ghost_inv (st, gl)" and "silent s" and "visited st1 = visited st"
    and "pushed_keys st1 = pushed_keys st" and "time st1 = time st"
  shows "ghost_inv (st1, ghostStep s st1 gl)"
proof (rule ghost_inv_log[OF assms(1)])
  show "agrees st1 (map fst gl @ [s])"
    using assms by (simp add: ghost_inv_def agrees_def rep_snoc silent_apply)
  show "0 \<le> time st1" using assms by (simp add: ghost_inv_def)
qed

lemma visited_visit: "0 \<le> time st \<Longrightarrow> visited (visit u st) = insert u (visited st)"
  by (auto simp: visited_def visit_def Let_def)

lemma pushed_keys_visit: "pushed_keys (visit u st) = pushed_keys st"
  by (simp add: pushed_keys_def visit_def Let_def)

lemma visitS_visit: "visitS ps u (st, lg) = (visit u st, ps (Visit u (disc (visit u st) u) (low (visit u st) u)) (visit u st) lg)"
  by (simp add: visit_def Let_def)

lemma ghost_inv_visitS: "ghost_inv sl \<Longrightarrow> ghost_inv (visitS ghostStep u sl)"
proof (cases sl)
  case (Pair st gl)
  assume "ghost_inv sl"
  then have k: "ghost_inv (st, gl)" by (simp add: Pair)
  then have t: "0 \<le> time st" by (simp add: ghost_inv_def)
  show ?thesis
    unfolding Pair visitS_visit
  proof (rule ghost_inv_log[OF k])
    show "agrees (visit u st) (map fst gl @ [Visit u (disc (visit u st) u) (low (visit u st) u)])"
      using k t by (simp add: ghost_inv_def agrees_def rep_snoc visited_visit pushed_keys_visit)
    show "0 \<le> time (visit u st)" using t by (simp add: time_visit)
  qed
qed

lemma tree_edgeS_tree_edge: "tree_edgeS ps u v (st, lg) = (tree_edge u v st, ps (PushEdge u v False) (tree_edge u v st) lg)"
  by (simp add: tree_edge_def Let_def)

lemma ghost_inv_tree_edgeS: "ghost_inv sl \<Longrightarrow> ghost_inv (tree_edgeS ghostStep u v sl)"
proof (cases sl)
  case (Pair st gl)
  assume "ghost_inv sl"
  then have k: "ghost_inv (st, gl)" by (simp add: Pair)
  show ?thesis
    unfolding Pair tree_edgeS_tree_edge
  proof (rule ghost_inv_log[OF k])
    show "agrees (tree_edge u v st) (map fst gl @ [PushEdge u v False])"
      using k by (auto simp: ghost_inv_def agrees_def rep_snoc visited_def pushed_keys_def tree_edge_def)
    show "0 \<le> time (tree_edge u v st)" using k by (simp add: ghost_inv_def)
  qed
qed

lemma ghost_inv_back_edgeS: "ghost_inv sl \<Longrightarrow> ghost_inv (back_edgeS ghostStep u v sl)"
proof (cases sl)
  case (Pair st gl)
  assume "ghost_inv sl"
  then have k: "ghost_inv (st, gl)" by (simp add: Pair)
  let ?st1 = "st\<lparr>edgeStack := (u, v) # edgeStack st\<rparr>"
  let ?st2 = "?st1\<lparr>low := (low ?st1)(u := js_min (low ?st1 u) (disc ?st1 v))\<rparr>"
  have k1: "ghost_inv (?st1, ghostStep (PushEdge u v True) ?st1 gl)"
  proof (rule ghost_inv_log[OF k])
    show "agrees ?st1 (map fst gl @ [PushEdge u v True])"
      using k by (auto simp: ghost_inv_def agrees_def rep_snoc visited_def pushed_keys_def)
    show "0 \<le> time ?st1" using k by (simp add: ghost_inv_def)
  qed
  have "ghost_inv (?st2, ghostStep (UpdateLow u (low ?st2 u) (BackTo v)) ?st2
                     (ghostStep (PushEdge u v True) ?st1 gl))"
    by (rule ghost_inv_silent[OF k1]) (simp_all add: silent_def visited_def pushed_keys_def)
  then show ?thesis by (simp add: Pair Let_def)
qed

lemma pop_until_set:
  "pop_until u v es ce cv = (es', ce', cv') \<Longrightarrow> set es \<union> set ce = set es' \<union> set ce'"
proof (induction es arbitrary: ce cv)
  case Nil
  then show ?case by simp
next
  case (Cons e es)
  show ?case
  proof (cases "(fst e = u \<and> snd e = v) \<or> (fst e = v \<and> snd e = u)")
    case True
    then show ?thesis using Cons.prems by (auto simp: Let_def)
  next
    case False
    then have "pop_until u v es (ce @ [e]) (set_add (snd e) (set_add (fst e) cv)) = (es', ce', cv')"
      using Cons.prems by (auto simp: Let_def)
    from Cons.IH[OF this] show ?thesis by auto
  qed
qed

lemma pop_all_set: "pop_all es ce cv = (ce', cv') \<Longrightarrow> set ce' = set es \<union> set ce"
proof (induction es arbitrary: ce cv)
  case Nil
  then show ?case by simp
next
  case (Cons e es)
  from Cons.prems have "pop_all es (ce @ [e]) (set_add (snd e) (set_add (fst e) cv)) = (ce', cv')"
    by simp
  from Cons.IH[OF this] show ?case by auto
qed

lemma ghost_inv_push_componentS:
  assumes "ghost_inv (st, gl)" and "set (edgeStack st) = set es \<union> set ce"
  shows "ghost_inv (push_componentS ghostStep ce cv (st\<lparr>edgeStack := es\<rparr>, gl))"
proof (cases "ce = []")
  case True
  then show ?thesis
    using assms by (simp add: ghost_inv_def agrees_def visited_def pushed_keys_def)
next
  case False
  let ?st0 = "st\<lparr>edgeStack := es\<rparr>"
  let ?st1 = "?st0\<lparr>tstate.components := tstate.components ?st0 @ [\<lparr>edges = ce, verts = cv\<rparr>]\<rparr>"
  have "ghost_inv (?st1, ghostStep (PopComponent (length (tstate.components ?st0)) ce cv) ?st1 gl)"
  proof (rule ghost_inv_silent[OF assms(1)])
    show "pushed_keys ?st1 = pushed_keys st"
      using assms(2) by (auto simp: pushed_keys_def)
  qed (simp_all add: silent_def visited_def)
  with False show ?thesis by (simp add: Let_def)
qed

lemma ghost_inv_close_componentS: "ghost_inv sl \<Longrightarrow> ghost_inv (close_componentS ghostStep u v sl)"
proof (cases sl)
  case (Pair st gl)
  assume "ghost_inv sl"
  then have k: "ghost_inv (st, gl)" by (simp add: Pair)
  obtain es ce cv where p: "pop_until u v (edgeStack st) [] [] = (es, ce, cv)"
    by (metis prod_cases3)
  have s: "set (edgeStack st) = set es \<union> set ce" using pop_until_set[OF p] by simp
  show ?thesis
    unfolding Pair close_componentS.simps p
    using k ghost_inv_push_componentS[OF k s] by (simp del: push_componentS.simps)
qed

lemma ghost_inv_pop_restS: "ghost_inv sl \<Longrightarrow> ghost_inv (pop_restS ghostStep sl)"
proof (cases sl)
  case (Pair st gl)
  assume "ghost_inv sl"
  then have k: "ghost_inv (st, gl)" by (simp add: Pair)
  obtain ce cv where p: "pop_all (edgeStack st) [] [] = (ce, cv)" by (metis prod.exhaust)
  have s: "set (edgeStack st) = set [] \<union> set ce" using pop_all_set[OF p] by simp
  show ?thesis
    unfolding Pair pop_restS.simps p
    using k ghost_inv_push_componentS[OF k s] by (simp del: push_componentS.simps)
qed

lemma ghost_inv_after_childS: "ghost_inv sl \<Longrightarrow> ghost_inv (after_childS ghostStep u v c sl)"
proof (cases sl)
  case (Pair st gl)
  assume "ghost_inv sl"
  then have k: "ghost_inv (st, gl)" by (simp add: Pair)
  let ?st1 = "st\<lparr>low := (low st)(u := js_min (low st u) (low st v))\<rparr>"
  let ?lg1 = "ghostStep (UpdateLow u (low ?st1 u) (Child v)) ?st1 gl"
  have k1: "ghost_inv (?st1, ?lg1)"
    by (rule ghost_inv_silent[OF k]) (simp_all add: silent_def visited_def pushed_keys_def)
  have ap: "ghost_inv (s\<lparr>ap := set_add u (ap s)\<rparr>, ghostStep (MarkAP u) (s\<lparr>ap := set_add u (ap s)\<rparr>) l)"
    if "ghost_inv (s, l)" for s l
    by (rule ghost_inv_silent[OF that]) (simp_all add: silent_def visited_def pushed_keys_def)
  have br: "ghost_inv (s\<lparr>tstate.bridges := tstate.bridges s @ [(u, v)]\<rparr>,
                       ghostStep (MarkBridge u v) (s\<lparr>tstate.bridges := tstate.bridges s @ [(u, v)]\<rparr>) l)"
    if "ghost_inv (s, l)" for s l
    by (rule ghost_inv_silent[OF that]) (simp_all add: silent_def visited_def pushed_keys_def)
  obtain st2 lg2 where 2: "(st2, lg2) = (if js_seq (parent ?st1 u) (Num (- 1)) \<and> c > 1
                        then (let s = ?st1\<lparr>ap := set_add u (ap ?st1)\<rparr> in (s, ghostStep (MarkAP u) s ?lg1))
                        else (?st1, ?lg1))"
    by (metis prod.exhaust)
  have k2: "ghost_inv (st2, lg2)" using 2 k1 ap[OF k1] by (simp add: Let_def split: if_splits)
  obtain st3 lg3 where 3: "(st3, lg3) = (if \<not> js_seq (parent st2 u) (Num (- 1)) \<and> js_ge (low st2 v) (disc st2 u)
                        then (let s = st2\<lparr>ap := set_add u (ap st2)\<rparr> in (s, ghostStep (MarkAP u) s lg2))
                        else (st2, lg2))"
    by (metis prod.exhaust)
  have k3: "ghost_inv (st3, lg3)" using 3 k2 ap[OF k2] by (simp add: Let_def split: if_splits)
  obtain st4 lg4 where 4: "(st4, lg4) = (if js_gt (low st3 v) (disc st3 u)
                        then (let s = st3\<lparr>tstate.bridges := tstate.bridges st3 @ [(u, v)]\<rparr>
                              in (s, ghostStep (MarkBridge u v) s lg3))
                        else (st3, lg3))"
    by (metis prod.exhaust)
  have k4: "ghost_inv (st4, lg4)" using 4 k3 br[OF k3] by (simp add: Let_def split: if_splits)
  have "after_childS ghostStep u v c (st, gl) = close_componentS ghostStep u v (st4, lg4)"
    unfolding after_childS.simps Let_def 2[symmetric, unfolded Let_def] 3[symmetric, unfolded Let_def]
      4[symmetric, unfolded Let_def] prod.case
    by (rule refl)
  then show ?thesis using ghost_inv_close_componentS[OF k4] by (simp add: Pair)
qed

lemma ghost_inv_init: "ghost_inv (start_state g, [])"
  by (simp add: ghost_inv_def agrees_def snapshots_agree_def rep_def replay0_def visited_def
      pushed_keys_def start_state_def)

lemma steps_ex_edge: "map_sum id snd (analyzeWithSteps 2 ex_edge) = Inr ex_steps"
  by code_simp

text \<open>
  Claim C2, as stated, at a concrete input.  On the graph with the single edge 0-1 the
  traversal emits six steps.  When the sixth, the \<^verbatim>\<open>popComponent\<close>, is emitted the edge
  stack is empty, but the replay of the six steps still holds the key of 0-1 in
  \<^verbatim>\<open>pushedEdges\<close>: the replay never removes an edge.
\<close>

theorem replay_pending_counterexample:
  "map_sum id snd (analyzeWithSteps 2 ex_edge) = Inr ex_steps \<and>
   stack_at 2 5 ex_edge = Some [] \<and>
   pushedEdges (applyStepsUpTo 5 ex_steps) = [UKey 0 1]"
proof -
  have "stack_at 2 5 ex_edge = Some []" by code_simp
  moreover have "pushedEdges (applyStepsUpTo 5 ex_steps) = [UKey 0 1]" by code_simp
  ultimately show ?thesis using steps_ex_edge by simp
qed

lemma ghost_run_of_roots:
  assumes "nextId g < 2 ^ 32" "roots depth g (nodes g) (start_state g) = Some st'"
  shows "\<exists>st gl. ghost_run depth g = Some (st, gl)"
proof -
  have "map_option fst (ghost_run depth g) = Some st'"
    using fst_rootsS[of ghostStep depth g "nodes g" "(start_state g, [])"] assms
    by (simp add: ghost_run_eq)
  then show ?thesis by (cases "ghost_run depth g") auto
qed

lemma ghost_run_steps:
  assumes "ghost_run depth g = Some (st, gl)"
  shows "analyzeWithSteps depth g = Inr (make_result st, map fst gl)"
proof -
  from assms have n: "nextId g < 2 ^ 32" by (auto simp: ghost_run_eq split: if_splits)
  have "rootsS pushStep depth g (nodes g) (erase (start_state g, [])) = Some (erase (st, gl))"
    using erase_rootsS[of depth g "nodes g" "(start_state g, [])"] assms n
    by (simp add: ghost_run_eq)
  then show ?thesis
    using n by (simp add: analyzeWithSteps_eq erase_def)
qed

lemma ghost_run_inv:
  assumes "ghost_run depth g = Some (st, gl)"
  shows "ghost_inv (st, gl)"
proof -
  from assms have run: "rootsS ghostStep depth g (nodes g) (start_state g, []) = Some (st, gl)"
    by (auto simp: ghost_run_eq split: if_splits)
  show ?thesis
    by (rule rootsS_invariant[of ghost_inv ghostStep, OF _ _ _ _ _ run ghost_inv_init])
       (simp_all add: ghost_inv_visitS ghost_inv_tree_edgeS ghost_inv_after_childS
          ghost_inv_back_edgeS ghost_inv_pop_restS)
qed

text \<open>
  Claim C2, amended.  \<^verbatim>\<open>analyzeWithSteps\<close> returns when \<^verbatim>\<open>nextId\<close> is below \<open>2^32\<close> and the
  call stack has room for as many nested calls of \<^verbatim>\<open>dfs\<close> as the graph has nodes.
  Whenever it returns, its traversal run with a logger that keeps the traversal state
  beside every step returns the same steps, and for every index \<open>i\<close> of these steps the
  replay of the first \<open>i + 1\<close> steps by \<^verbatim>\<open>applyStepsUpTo\<close> rebuilds in \<^verbatim>\<open>visitedNodes\<close>
  exactly the nodes visited at the moment step \<open>i\<close> was emitted, and in \<^verbatim>\<open>pushedEdges\<close>
  exactly the keys of the edges pushed up to that moment: those on the edge stack
  together with those already popped into components.
\<close>

theorem replay_reconstructs:
  "(nextId g < 2 ^ 32 \<and> length (nodes g) \<le> depth \<longrightarrow>
      (\<exists>r steps. analyzeWithSteps depth g = Inr (r, steps))) \<and>
   (\<forall>r steps. analyzeWithSteps depth g = Inr (r, steps) \<longrightarrow>
      (\<exists>st gl. ghost_run depth g = Some (st, gl) \<and> map fst gl = steps \<and>
         (\<forall>i < length gl.
            set (visitedNodes (applyStepsUpTo (int i) steps)) = visited (snd (gl ! i)) \<and>
            set (pushedEdges (applyStepsUpTo (int i) steps)) = pushed_keys (snd (gl ! i)))))"
proof (intro conjI allI impI)
  assume h: "nextId g < 2 ^ 32 \<and> length (nodes g) \<le> depth"
  obtain st0 where "roots (length (nodes g)) g (nodes g) (start_state g) = Some st0"
    using roots_start_total[of g "length (nodes g)"] by blast
  then have "roots depth g (nodes g) (start_state g) = Some st0"
    using h by (auto intro: roots_depth_mono)
  with h obtain st gl where "ghost_run depth g = Some (st, gl)"
    using ghost_run_of_roots by blast
  from ghost_run_steps[OF this] show "\<exists>r steps. analyzeWithSteps depth g = Inr (r, steps)" by blast
next
  fix r steps
  assume a: "analyzeWithSteps depth g = Inr (r, steps)"
  then have n: "nextId g < 2 ^ 32" by (auto simp: analyzeWithSteps_eq split: if_splits)
  from a n obtain st0 where "rootsS pushStep depth g (nodes g) (start_state g, []) = Some (st0, steps)"
    by (auto simp: analyzeWithSteps_eq split: option.splits)
  then have "roots depth g (nodes g) (start_state g) = Some st0"
    using fst_rootsS[of pushStep depth g "nodes g" "(start_state g, [])"] by simp
  with n obtain st gl where run: "ghost_run depth g = Some (st, gl)"
    using ghost_run_of_roots by blast
  have steps: "map fst gl = steps" using ghost_run_steps[OF run] a by simp
  have inv: "snapshots_agree gl" using ghost_run_inv[OF run] by (simp add: ghost_inv_def)
  have "set (visitedNodes (applyStepsUpTo (int i) steps)) = visited (snd (gl ! i)) \<and>
        set (pushedEdges (applyStepsUpTo (int i) steps)) = pushed_keys (snd (gl ! i))"
    if "i < length gl" for i
  proof -
    have "applyStepsUpTo (int i) (map fst gl) = rep (map fst (take (Suc i) gl))"
      using that applyStepsUpTo_take[of i "map fst gl"] by (simp add: take_map)
    moreover have "agrees (snd (gl ! i)) (map fst (take (Suc i) gl))"
      using inv that by (simp add: snapshots_agree_def)
    ultimately show ?thesis unfolding steps[symmetric] by (simp add: agrees_def)
  qed
  with run steps
  show "\<exists>st gl. ghost_run depth g = Some (st, gl) \<and> map fst gl = steps \<and>
         (\<forall>i < length gl.
            set (visitedNodes (applyStepsUpTo (int i) steps)) = visited (snd (gl ! i)) \<and>
            set (pushedEdges (applyStepsUpTo (int i) steps)) = pushed_keys (snd (gl ! i)))"
    by blast
qed

text \<open>
  The amended claim C2 evaluated on the graph with the single edge 0-1: at the third
  step the nodes 0 and 1 are visited, at the sixth the pushed keys are the key of 0-1.
\<close>

theorem replay_reconstructs_witness:
  "\<exists>r st gl. analyzeWithSteps 2 ex_edge = Inr (r, ex_steps) \<and>
     ghost_run 2 ex_edge = Some (st, gl) \<and> map fst gl = ex_steps \<and>
     visited (snd (gl ! 2)) = {0, 1} \<and> pushed_keys (snd (gl ! 5)) = {UKey 0 1}"
proof -
  obtain r where a: "analyzeWithSteps 2 ex_edge = Inr (r, ex_steps)"
    using steps_ex_edge by (cases "analyzeWithSteps 2 ex_edge") auto
  obtain st gl where run: "ghost_run 2 ex_edge = Some (st, gl)"
    and m: "map fst gl = ex_steps"
    and ag: "\<forall>i < length gl.
        set (visitedNodes (applyStepsUpTo (int i) ex_steps)) = visited (snd (gl ! i)) \<and>
        set (pushedEdges (applyStepsUpTo (int i) ex_steps)) = pushed_keys (snd (gl ! i))"
    using replay_reconstructs[of ex_edge 2] a by blast
  have "length (map fst gl) = 6" unfolding m by (simp add: ex_steps_def)
  then have l: "length gl = 6" by simp
  have v: "set (visitedNodes (applyStepsUpTo 2 ex_steps)) = {0, 1}" by code_simp
  have p: "set (pushedEdges (applyStepsUpTo 5 ex_steps)) = {UKey 0 1}" by code_simp
  have "visited (snd (gl ! 2)) = {0, 1}" using ag[rule_format, of 2] l v by simp
  moreover have "pushed_keys (snd (gl ! 5)) = {UKey 0 1}" using ag[rule_format, of 5] l p by simp
  ultimately show ?thesis using a run m by blast
qed

subsection \<open>The edge partition on graphs whose ids are in range\<close>

text \<open>Effect of the pieces of the loop body on \<open>disc\<close>, \<open>parent\<close>, \<open>time\<close> and the pushed edges.\<close>

lemma parent_push_component [simp]: "parent (push_component ce cv st) = parent st"
  by (simp add: push_component_def)

lemma parent_close_component [simp]: "parent (close_component u v st) = parent st"
  by (simp add: close_component_def split: prod.splits)

lemma parent_after_child [simp]: "parent (after_child u v c st) = parent st"
  by (simp add: after_child_def Let_def)

lemma parent_back_edge [simp]: "parent (back_edge u v st) = parent st"
  by (simp add: back_edge_def Let_def)

lemma parent_pop_rest [simp]: "parent (pop_rest st) = parent st"
  by (simp add: pop_rest_def split: prod.splits)

lemma parent_visit [simp]: "parent (visit u st) = parent st"
  by (simp add: visit_def Let_def)

lemma pop_until_append:
  "pop_until u v es ce cv = (es', ce', cv') \<Longrightarrow> ce @ es = ce' @ es'"
proof (induction es arbitrary: ce cv)
  case Nil
  then show ?case by simp
next
  case (Cons e es)
  show ?case
  proof (cases "(fst e = u \<and> snd e = v) \<or> (fst e = v \<and> snd e = u)")
    case True
    then show ?thesis using Cons.prems by (auto simp: Let_def)
  next
    case False
    then have "pop_until u v es (ce @ [e]) (set_add (snd e) (set_add (fst e) cv)) = (es', ce', cv')"
      using Cons.prems by (auto simp: Let_def)
    from Cons.IH[OF this] show ?thesis by simp
  qed
qed

lemma pop_all_append: "pop_all es ce cv = (ce', cv') \<Longrightarrow> ce' = ce @ es"
proof (induction es arbitrary: ce cv)
  case Nil
  then show ?case by simp
next
  case (Cons e es)
  from Cons.prems have "pop_all es (ce @ [e]) (set_add (snd e) (set_add (fst e) cv)) = (ce', cv')"
    by simp
  from Cons.IH[OF this] show ?case by simp
qed

lemma pushed_push_component:
  "set (pushed (push_component ce cv (st\<lparr>edgeStack := es\<rparr>))) = set es \<union> set ce \<union> set (concat (map edges (tstate.components st)))"
  "distinct (pushed (push_component ce cv (st\<lparr>edgeStack := es\<rparr>))) \<longleftrightarrow>
     distinct (es @ ce @ concat (map edges (tstate.components st)))"
  by (auto simp: pushed_def push_component_def)

lemma pushed_close_component:
  "set (pushed (close_component u v st)) = set (pushed st)"
  "distinct (pushed (close_component u v st)) = distinct (pushed st)"
proof -
  obtain es ce cv where p: "pop_until u v (edgeStack st) [] [] = (es, ce, cv)"
    by (metis prod_cases3)
  have e: "edgeStack st = ce @ es" using pop_until_append[OF p] by simp
  show "set (pushed (close_component u v st)) = set (pushed st)"
    using p e by (auto simp: close_component_def pushed_push_component(1)) (auto simp: pushed_def)
  show "distinct (pushed (close_component u v st)) = distinct (pushed st)"
    using p e by (auto simp: close_component_def pushed_push_component(2)) (auto simp: pushed_def)
qed

lemma pushed_after_child:
  "set (pushed (after_child u v c st)) = set (pushed st)"
  "distinct (pushed (after_child u v c st)) = distinct (pushed st)"
  unfolding after_child_def Let_def pushed_close_component
  by (simp_all add: pushed_def)

lemma pushed_pop_rest:
  "set (pushed (pop_rest st)) = set (pushed st)"
  "distinct (pushed (pop_rest st)) = distinct (pushed st)"
proof -
  obtain ce cv where p: "pop_all (edgeStack st) [] [] = (ce, cv)" by (metis prod.exhaust)
  have e: "ce = edgeStack st" using pop_all_append[OF p] by simp
  show "set (pushed (pop_rest st)) = set (pushed st)"
    using p e by (auto simp: pop_rest_def pushed_push_component(1)) (auto simp: pushed_def)
  show "distinct (pushed (pop_rest st)) = distinct (pushed st)"
    using p e by (auto simp: pop_rest_def pushed_push_component(2)) (auto simp: pushed_def)
qed

lemma pushed_visit [simp]: "pushed (visit u st) = pushed st"
  by (simp add: pushed_def visit_def Let_def)

lemma pushed_tree_edge [simp]: "pushed (tree_edge u v st) = (u, v) # pushed st"
  by (simp add: pushed_def tree_edge_def)

lemma pushed_back_edge [simp]: "pushed (back_edge u v st) = (u, v) # pushed st"
  by (simp add: pushed_def back_edge_def Let_def)

lemma visited_simps [simp]:
  "visited (tree_edge u v st) = visited st"
  "visited (after_child u v c st) = visited st"
  "visited (back_edge u v st) = visited st"
  "visited (pop_rest st) = visited st"
  by (simp_all add: visited_def)

lemma takes_simps [simp]:
  "takes (after_child u v c st) = takes st"
  "takes (back_edge u v st) = takes st"
  "takes (pop_rest st) = takes st"
  by (simp_all add: takes_def fun_eq_iff)

lemma parent_tree_edge [simp]: "parent (tree_edge u v st) = (parent st)(v := Num u)"
  by (simp add: tree_edge_def)

lemma disc_visit: "disc (visit u st) = (disc st)(u := Num (time st + 1))"
  by (simp add: visit_def Let_def)

lemma visited_iff: "i \<in> visited st \<longleftrightarrow> (\<exists>t. disc st i = Num t \<and> t \<noteq> - 1)"
  by (simp add: visited_def)

lemma tinv_visited_bounds:
  assumes "tinv g st" "i \<in> visited st"
  shows "in_bounds (nextId g) i" "\<exists>t. disc st i = Num t \<and> 1 \<le> t \<and> t \<le> time st"
proof -
  from assms(2) obtain t where t: "disc st i = Num t" "t \<noteq> - 1" by (auto simp: visited_iff)
  show b: "in_bounds (nextId g) i"
  proof (rule ccontr)
    assume "\<not> in_bounds (nextId g) i"
    with assms(1) have "disc st i = Undef" by (simp add: tinv_def)
    with t show False by simp
  qed
  from assms(1) b have "disc st i = Num (- 1) \<or> (\<exists>t. disc st i = Num t \<and> 1 \<le> t \<and> t \<le> time st)"
    by (simp add: tinv_def)
  with t show "\<exists>t. disc st i = Num t \<and> 1 \<le> t \<and> t \<le> time st" by auto
qed

lemma tinv_unvisited_bounds:
  assumes "tinv g st" "disc st i = Num (- 1)"
  shows "in_bounds (nextId g) i" "i \<notin> visited st"
proof -
  show "in_bounds (nextId g) i"
  proof (rule ccontr)
    assume "\<not> in_bounds (nextId g) i"
    with assms(1) have "disc st i = Undef" by (simp add: tinv_def)
    with assms(2) show False by simp
  qed
  show "i \<notin> visited st" using assms(2) by (simp add: visited_iff)
qed

lemma tinv_in_bounds_cases:
  assumes "tinv g st" "in_bounds (nextId g) i"
  shows "disc st i = Num (- 1) \<or> i \<in> visited st"
proof -
  from assms have "disc st i = Num (- 1) \<or> (\<exists>t. disc st i = Num t \<and> 1 \<le> t \<and> t \<le> time st)"
    by (simp add: tinv_def)
  then show ?thesis by (auto simp: visited_iff)
qed

lemma tinv_visit:
  assumes i: "tinv g st" and u: "disc st u = Num (- 1)"
  shows "tinv g (visit u st)"
proof -
  have t0: "0 \<le> time st" using i by (simp add: tinv_def)
  have ub: "in_bounds (nextId g) u" "u \<notin> visited st" using tinv_unvisited_bounds[OF i u] by auto
  have vis: "visited (visit u st) = insert u (visited st)" by (rule visited_visit[OF t0])
  have d: "disc (visit u st) = (disc st)(u := Num (time st + 1))" by (rule disc_visit)
  have tm: "time (visit u st) = time st + 1" by (rule time_visit)
  have old: "\<exists>t. disc st k = Num t \<and> 1 \<le> t \<and> t \<le> time st" if "k \<in> visited st" for k
    using tinv_visited_bounds(2)[OF i that] .
  have c1: "0 \<le> time (visit u st)" using t0 tm by simp
  have c2: "\<forall>k. in_bounds (nextId g) k \<longrightarrow>
          disc (visit u st) k = Num (- 1) \<or> (\<exists>t. disc (visit u st) k = Num t \<and> 1 \<le> t \<and> t \<le> time (visit u st))"
  proof (intro allI impI)
    fix k assume k: "in_bounds (nextId g) k"
    show "disc (visit u st) k = Num (- 1) \<or> (\<exists>t. disc (visit u st) k = Num t \<and> 1 \<le> t \<and> t \<le> time (visit u st))"
    proof (cases "k = u")
      case True
      then show ?thesis using t0 by (simp add: d tm)
    next
      case False
      from i k have "disc st k = Num (- 1) \<or> (\<exists>t. disc st k = Num t \<and> 1 \<le> t \<and> t \<le> time st)"
        by (simp add: tinv_def)
      then show ?thesis using False by (auto simp: d tm)
    qed
  qed
  have c3: "\<forall>k. \<not> in_bounds (nextId g) k \<longrightarrow> disc (visit u st) k = Undef"
  proof (intro allI impI)
    fix k assume k: "\<not> in_bounds (nextId g) k"
    then have "k \<noteq> u" using ub by auto
    moreover from i k have "disc st k = Undef" by (simp add: tinv_def)
    ultimately show "disc (visit u st) k = Undef" by (simp add: d)
  qed
  have nolate: "disc st k \<noteq> Num (time st + 1)" for k
  proof
    assume e: "disc st k = Num (time st + 1)"
    then have "k \<in> visited st" using t0 by (auto simp: visited_iff)
    from old[OF this] e show False by auto
  qed
  have c4: "\<forall>k j t. disc (visit u st) k = Num t \<longrightarrow> disc (visit u st) j = Num t \<longrightarrow> 1 \<le> t \<longrightarrow> k = j"
  proof (intro allI impI)
    fix k j t assume a: "disc (visit u st) k = Num t" "disc (visit u st) j = Num t" "1 \<le> t"
    have inj: "\<forall>k j t. disc st k = Num t \<longrightarrow> disc st j = Num t \<longrightarrow> 1 \<le> t \<longrightarrow> k = j"
      using i by (simp add: tinv_def)
    show "k = j"
    proof (cases "k = u")
      case ku: True
      show ?thesis
      proof (cases "j = u")
        case True with ku show ?thesis by simp
      next
        case False
        with a ku have "disc st j = Num (time st + 1)" by (simp add: d)
        with nolate show ?thesis by blast
      qed
    next
      case ku: False
      show ?thesis
      proof (cases "j = u")
        case True
        with a ku have "disc st k = Num (time st + 1)" by (simp add: d)
        with nolate show ?thesis by blast
      next
        case False
        with a ku have "disc st k = Num t" "disc st j = Num t" by (simp_all add: d)
        with inj a(3) show ?thesis by blast
      qed
    qed
  qed
  have par: "\<forall>k w. parent st k = Num w \<longrightarrow> 0 \<le> w \<longrightarrow> w \<in> visited st"
    using i by (simp add: tinv_def)
  have c5: "\<forall>v w. v \<in> visited (visit u st) \<longrightarrow> parent (visit u st) v = Num w \<longrightarrow> 0 \<le> w \<longrightarrow>
               js_lt (disc (visit u st) w) (disc (visit u st) v)"
  proof (intro allI impI)
    fix v w assume a: "v \<in> visited (visit u st)" "parent (visit u st) v = Num w" "0 \<le> w"
    from a(2) have p: "parent st v = Num w" by simp
    from par p a(3) have wv: "w \<in> visited st" by blast
    then have wu: "w \<noteq> u" using ub by auto
    from old[OF wv] obtain tw where tw: "disc st w = Num tw" "1 \<le> tw" "tw \<le> time st" by blast
    show "js_lt (disc (visit u st) w) (disc (visit u st) v)"
    proof (cases "v = u")
      case True
      then show ?thesis using wu tw by (simp add: d)
    next
      case False
      with a(1) have "v \<in> visited st" by (simp add: vis)
      with i p a(3) have "js_lt (disc st w) (disc st v)" by (simp add: tinv_def)
      then show ?thesis using False wu by (simp add: d)
    qed
  qed
  have c6: "\<forall>k w. parent (visit u st) k = Num w \<longrightarrow> 0 \<le> w \<longrightarrow> w \<in> visited (visit u st)"
    using par by (simp add: vis)
  have c7: "\<forall>p \<in> set (pushed (visit u st)). fst p \<in> visited (visit u st)"
    using i by (simp add: tinv_def vis)
  have c9: "\<forall>v w. parent (visit u st) v = Num w \<longrightarrow> 0 \<le> w \<longrightarrow> (w, v) \<in> set (pushed (visit u st))"
    using i by (simp add: tinv_def)
  have c8: "distinct (pushed (visit u st))" using i by (simp add: tinv_def)
  show ?thesis unfolding tinv_def using c1 c2 c3 c4 c5 c6 c7 c8 c9 by blast
qed

lemma tinv_core:
  assumes "tinv g st" "disc st' = disc st" "parent st' = parent st" "time st' = time st"
    "set (pushed st') = set (pushed st)" "distinct (pushed st') = distinct (pushed st)"
  shows "tinv g st'"
proof -
  have "visited st' = visited st" using assms(2) by (simp add: visited_def)
  then show ?thesis using assms unfolding tinv_def by simp
qed

lemma tinv_after_child: "tinv g st \<Longrightarrow> tinv g (after_child u v c st)"
  by (erule tinv_core) (simp_all add: pushed_after_child)

lemma tinv_pop_rest: "tinv g st \<Longrightarrow> tinv g (pop_rest st)"
  by (erule tinv_core) (simp_all add: pushed_pop_rest)

lemma tinv_back_edge:
  assumes "tinv g st" "u \<in> visited st" "(u, v) \<notin> set (pushed st)"
  shows "tinv g (back_edge u v st)"
  using assms unfolding tinv_def by simp

lemma tinv_tree_edge:
  assumes i: "tinv g st" and u: "u \<in> visited st" and v: "disc st v = Num (- 1)"
    and n: "(u, v) \<notin> set (pushed st)"
  shows "tinv g (tree_edge u v st)"
proof -
  have vv: "v \<notin> visited st" using v by (simp add: visited_iff)
  have c5: "\<forall>k w. k \<in> visited st \<longrightarrow> ((parent st)(v := Num u)) k = Num w \<longrightarrow> 0 \<le> w \<longrightarrow>
               js_lt (disc st w) (disc st k)"
  proof (intro allI impI)
    fix k w assume a: "k \<in> visited st" "((parent st)(v := Num u)) k = Num w" "0 \<le> w"
    from a(1) vv have "k \<noteq> v" by auto
    with a(2) have "parent st k = Num w" by simp
    with i a show "js_lt (disc st w) (disc st k)" by (simp add: tinv_def)
  qed
  have c6: "\<forall>k w. ((parent st)(v := Num u)) k = Num w \<longrightarrow> 0 \<le> w \<longrightarrow> w \<in> visited st"
  proof (intro allI impI)
    fix k w assume a: "((parent st)(v := Num u)) k = Num w" "0 \<le> w"
    show "w \<in> visited st"
    proof (cases "k = v")
      case True with a u show ?thesis by simp
    next
      case False
      with a have "parent st k = Num w" by simp
      with i a(2) show ?thesis unfolding tinv_def by blast
    qed
  qed
  have c9: "\<forall>k w. ((parent st)(v := Num u)) k = Num w \<longrightarrow> 0 \<le> w \<longrightarrow>
               (w, k) = (u, v) \<or> (w, k) \<in> set (pushed st)"
  proof (intro allI impI)
    fix k w assume a: "((parent st)(v := Num u)) k = Num w" "0 \<le> w"
    show "(w, k) = (u, v) \<or> (w, k) \<in> set (pushed st)"
    proof (cases "k = v")
      case True with a show ?thesis by simp
    next
      case False
      with a have "parent st k = Num w" by simp
      with i a(2) show ?thesis unfolding tinv_def by blast
    qed
  qed
  show ?thesis
    unfolding tinv_def using i u n c5 c6 c9 by (simp add: tinv_def)
qed

lemma wf_nbrs:
  assumes "graph_wf g" "v \<in> set (neighbors g u)"
  shows "v \<in> node_ids g" "v \<noteq> u" "in_bounds (nextId g) v" "u \<in> set (neighbors g v)"
proof -
  from assms(2) have k: "u \<in> set (map fst (adj g))"
    by (cases "map_of (adj g) u") (auto simp: neighbors_def dest!: map_of_SomeD intro: rev_image_eqI)
  from assms k show "v \<in> node_ids g" "v \<noteq> u" "u \<in> set (neighbors g v)"
    unfolding graph_wf_def adj_closed_def adj_symmetric_def by blast+
  then show "in_bounds (nextId g) v" using assms(1) unfolding graph_wf_def node_ids_def by auto
qed

lemma wf_distinct: "graph_wf g \<Longrightarrow> distinct (neighbors g u)"
proof (cases "map_of (adj g) u")
  case None
  then show ?thesis by (simp add: neighbors_def)
next
  case (Some s)
  assume w: "graph_wf g"
  from Some have "u \<in> set (map fst (adj g))" by (auto dest: map_of_SomeD intro: rev_image_eqI)
  with w show ?thesis unfolding graph_wf_def by blast
qed

lemma frame_refl: "frame st st"
  by (simp add: frame_def)

lemma frame_mono: "frame st st' \<Longrightarrow> visited st \<subseteq> visited st'"
  unfolding frame_def visited_def by force

lemma frame_trans:
  assumes "frame st st1" "frame st1 st2"
  shows "frame st st2"
proof -
  have m: "visited st \<subseteq> visited st1" "visited st1 \<subseteq> visited st2"
    using assms by (auto dest: frame_mono)
  have d: "disc st2 i = disc st i" if "disc st i \<noteq> Num (- 1)" for i
  proof -
    from assms(1) that have "disc st1 i = disc st i" by (simp add: frame_def)
    with assms(2) that show ?thesis by (simp add: frame_def)
  qed
  have p: "i \<in> visited st2 - visited st" if "parent st2 i \<noteq> parent st i" for i
  proof (cases "parent st2 i = parent st1 i")
    case True
    with that have "parent st1 i \<noteq> parent st i" by simp
    with assms(1) have "i \<in> visited st1 - visited st" by (simp add: frame_def)
    with m show ?thesis by auto
  next
    case False
    with assms(2) have "i \<in> visited st2 - visited st1" by (simp add: frame_def)
    with m show ?thesis by auto
  qed
  show ?thesis unfolding frame_def using d p by blast
qed

lemma frame_same: "disc st' = disc st \<Longrightarrow> parent st' = parent st \<Longrightarrow> frame st st'"
  by (simp add: frame_def)

lemma frame_parent: "frame st st' \<Longrightarrow> i \<in> visited st \<Longrightarrow> parent st' i = parent st i"
  unfolding frame_def by blast

lemma frame_disc: "frame st st' \<Longrightarrow> i \<in> visited st \<Longrightarrow> disc st' i = disc st i"
  unfolding frame_def visited_def by auto

lemma takes_stable:
  "frame st st' \<Longrightarrow> w \<in> visited st \<Longrightarrow> v \<in> visited st \<Longrightarrow> takes st' w v = takes st w v"
  by (simp add: takes_def frame_parent frame_disc)

lemma frame_visit: "disc st u = Num (- 1) \<Longrightarrow> frame st (visit u st)"
  by (auto simp: frame_def disc_visit)

lemma loop_pre_start:
  assumes w: "graph_wf g" and p: "dfs_pre g u st"
  shows "loop_pre g u (neighbors g u) (visit u st)"
proof -
  from p have i: "tinv g st" and d: "disc st u = Num (- 1)" by (simp_all add: dfs_pre_def)
  have t0: "0 \<le> time st" using i by (simp add: tinv_def)
  have nv: "u \<notin> visited st" using d by (simp add: visited_iff)
  have "\<forall>q \<in> set (pushed st). fst q \<in> visited st" using i by (simp add: tinv_def)
  with nv have np: "(u, v) \<notin> set (pushed st)" for v by force
  show ?thesis
    unfolding loop_pre_def
    using tinv_visit[OF i d] visited_visit[OF t0, of u] wf_distinct[OF w, of u] wf_nbrs(1)[OF w] np
    by auto
qed

lemma dfs_post_intro:
  assumes w: "graph_wf g" and p: "dfs_pre g u st"
    and l: "loop_post g u (neighbors g u) (visit u st) st'"
  shows "dfs_post g u st st'"
proof -
  from p have i: "tinv g st" and d: "disc st u = Num (- 1)" by (simp_all add: dfs_pre_def)
  have t0: "0 \<le> time st" using i by (simp add: tinv_def)
  have nv: "u \<notin> visited st" using d by (simp add: visited_iff)
  have vis1: "visited (visit u st) = insert u (visited st)" by (rule visited_visit[OF t0])
  from l have i': "tinv g st'" and f1: "frame (visit u st) st'"
    and ns: "set (neighbors g u) \<subseteq> visited st'"
    and nd: "nbrs_done g (visited st' - visited (visit u st)) st'"
    and eq: "\<And>q. q \<in> set (pushed st') \<longleftrightarrow>
          q \<in> set (pushed (visit u st)) \<or> new_pair g (visited st' - visited (visit u st)) st' q \<or>
          (fst q = u \<and> snd q \<in> set (neighbors g u) \<and> takes st' u (snd q))"
    by (simp_all add: loop_post_def del: split_paired_All)
  have f: "frame st st'" by (rule frame_trans[OF frame_visit[OF d] f1])
  have uv: "u \<in> visited st'" using frame_mono[OF f1] vis1 by auto
  have pu: "parent st' u = parent st u"
    using frame_parent[OF f1, of u] vis1 by simp
  have N: "visited st' - visited st = insert u (visited st' - visited (visit u st))"
    using vis1 nv uv by auto
  have nd': "nbrs_done g (visited st' - visited st) st'"
    unfolding N using nd ns by (simp add: nbrs_done_def)
  have eq': "q \<in> set (pushed st') \<longleftrightarrow>
          q \<in> set (pushed st) \<or> new_pair g (visited st' - visited st) st' q" for q
    unfolding N eq[of q] by (auto simp: new_pair_def)
  show ?thesis unfolding dfs_post_def using i' f pu uv nd' eq' by blast
qed

lemma loop_post_nil: "tinv g st \<Longrightarrow> loop_post g u [] st st"
  by (simp add: loop_post_def frame_refl nbrs_done_def new_pair_def)

lemma tree_pre:
  assumes "loop_pre g u (v # vs) st" "disc st v = Num (- 1)"
  shows "dfs_pre g v (tree_edge u v st)"
  using assms tinv_tree_edge[of g st u v] by (simp add: loop_pre_def dfs_pre_def)

lemma tree_mid:
  assumes p: "loop_pre g u (v # vs) st" and d: "disc st v = Num (- 1)"
    and q: "dfs_post g v (tree_edge u v st) st1"
  shows "loop_pre g u vs (after_child u v c st1)"
proof -
  from p have i: "tinv g st" and u: "u \<in> visited st" and dv: "v \<notin> set vs" "distinct vs"
    and sub: "set vs \<subseteq> node_ids g" and np: "\<And>k. k \<in> set vs \<Longrightarrow> (u, k) \<notin> set (pushed st)"
    by (simp_all add: loop_pre_def)
  from q have i1: "tinv g st1" and f: "frame (tree_edge u v st) st1"
    and eq: "\<And>q. q \<in> set (pushed st1) \<longleftrightarrow>
          q \<in> set (pushed (tree_edge u v st)) \<or>
          new_pair g (visited st1 - visited (tree_edge u v st)) st1 q"
    by (simp_all add: dfs_post_def del: split_paired_All)
  have u1: "u \<in> visited st1" using frame_mono[OF f] u by auto
  have "(u, k) \<notin> set (pushed st1)" if "k \<in> set vs" for k
    using eq[of "(u, k)"] np[OF that] that dv u by (auto simp: new_pair_def)
  then show ?thesis
    unfolding loop_pre_def using tinv_after_child[OF i1] u1 dv sub
    by (simp add: pushed_after_child)
qed

lemma tree_post:
  assumes p: "loop_pre g u (v # vs) st" and d: "disc st v = Num (- 1)"
    and q: "dfs_post g v (tree_edge u v st) st1"
    and l: "loop_post g u vs (after_child u v c st1) st'"
  shows "loop_post g u (v # vs) st st'"
proof -
  let ?a = "tree_edge u v st" and ?c = "after_child u v c st1"
  from p have u: "u \<in> visited st" by (simp add: loop_pre_def)
  have nv: "v \<notin> visited st" using d by (simp add: visited_iff)
  from q have i1: "tinv g st1" and f1: "frame ?a st1" and pv: "parent st1 v = parent ?a v"
    and v1: "v \<in> visited st1" and nd1: "nbrs_done g (visited st1 - visited st) st1"
    and eq1: "\<And>q. q \<in> set (pushed st1) \<longleftrightarrow>
          q \<in> set (pushed ?a) \<or> new_pair g (visited st1 - visited st) st1 q"
    by (simp_all add: dfs_post_def del: split_paired_All)
  from l have i': "tinv g st'" and f2: "frame ?c st'" and s2: "set vs \<subseteq> visited st'"
    and nd2: "nbrs_done g (visited st' - visited st1) st'"
    and eq2: "\<And>q. q \<in> set (pushed st') \<longleftrightarrow>
          q \<in> set (pushed st1) \<or> new_pair g (visited st' - visited st1) st' q \<or>
          (fst q = u \<and> snd q \<in> set vs \<and> takes st' u (snd q))"
    by (simp_all add: loop_post_def pushed_after_child del: split_paired_All)
  have m1: "visited st \<subseteq> visited st1" using frame_mono[OF f1] by simp
  have m2: "visited st1 \<subseteq> visited st'" using frame_mono[OF f2] by simp
  have fa: "frame st st1"
  proof -
    have "disc st1 i = disc st i" if "disc st i \<noteq> Num (- 1)" for i
      using f1 that by (simp add: frame_def)
    moreover have "i \<in> visited st1 - visited st" if "parent st1 i \<noteq> parent st i" for i
    proof (cases "i = v")
      case True
      then show ?thesis using v1 nv by simp
    next
      case False
      with that have "parent st1 i \<noteq> parent ?a i" by simp
      with f1 show ?thesis by (simp add: frame_def)
    qed
    ultimately show ?thesis unfolding frame_def by blast
  qed
  have fc: "frame st1 ?c" by (rule frame_same) simp_all
  have f: "frame st st'" by (rule frame_trans[OF fa frame_trans[OF fc f2]])
  have f1': "frame st1 st'" by (rule frame_trans[OF fc f2])
  have N: "visited st' - visited st = (visited st1 - visited st) \<union> (visited st' - visited st1)"
    using m1 m2 by auto
  have nd1': "nbrs_done g (visited st1 - visited st) st'"
    using nd1 m2 unfolding nbrs_done_def by blast
  have nd: "nbrs_done g (visited st' - visited st) st'"
    unfolding N using nd1' nd2 unfolding nbrs_done_def by blast
  have np: "new_pair g (visited st1 - visited st) st1 k \<longleftrightarrow> new_pair g (visited st1 - visited st) st' k" for k
  proof (cases "fst k \<in> visited st1 - visited st \<and> snd k \<in> set (neighbors g (fst k))")
    case True
    then have "fst k \<in> visited st1" "snd k \<in> visited st1" using nd1 unfolding nbrs_done_def by auto
    from takes_stable[OF f1' this] show ?thesis by (simp add: new_pair_def)
  next
    case False
    then show ?thesis by (auto simp: new_pair_def)
  qed
  have tv: "takes st' u v"
  proof -
    have "parent st' v = parent st1 v" by (rule frame_parent[OF f1' v1])
    then show ?thesis using pv by (simp add: takes_def)
  qed
  have eq: "k \<in> set (pushed st') \<longleftrightarrow>
          k \<in> set (pushed st) \<or> new_pair g (visited st' - visited st) st' k \<or>
          (fst k = u \<and> snd k \<in> set (v # vs) \<and> takes st' u (snd k))" for k
  proof -
    have "k \<in> set (pushed st') \<longleftrightarrow>
        (k = (u, v) \<or> k \<in> set (pushed st) \<or> new_pair g (visited st1 - visited st) st' k) \<or>
         new_pair g (visited st' - visited st1) st' k \<or>
          (fst k = u \<and> snd k \<in> set vs \<and> takes st' u (snd k))"
      unfolding eq2[of k] eq1[of k] np[of k] by simp
    also have "\<dots> \<longleftrightarrow> k \<in> set (pushed st) \<or> new_pair g (visited st' - visited st) st' k \<or>
          (fst k = u \<and> snd k \<in> set (v # vs) \<and> takes st' u (snd k))"
      unfolding N using tv by (cases k) (auto simp: new_pair_def)
    finally show ?thesis .
  qed
  have s: "set (v # vs) \<subseteq> visited st'" using s2 v1 m2 by auto
  show ?thesis unfolding loop_post_def using i' f s nd eq by blast
qed

lemma back_pre:
  assumes "loop_pre g u (v # vs) st"
  shows "loop_pre g u vs (back_edge u v st)"
  using assms tinv_back_edge[of g st u v] by (auto simp: loop_pre_def)

lemma back_post:
  assumes p: "loop_pre g u (v # vs) st" and v: "v \<in> visited st"
    and c: "parent st u \<noteq> Num v" "js_lt (disc st v) (disc st u)"
    and l: "loop_post g u vs (back_edge u v st) st'"
  shows "loop_post g u (v # vs) st st'"
proof -
  let ?a = "back_edge u v st"
  from p have u: "u \<in> visited st" by (simp add: loop_pre_def)
  from l have i': "tinv g st'" and f2: "frame ?a st'" and s2: "set vs \<subseteq> visited st'"
    and nd2: "nbrs_done g (visited st' - visited st) st'"
    and eq2: "\<And>q. q \<in> set (pushed st') \<longleftrightarrow>
          q \<in> set (pushed ?a) \<or> new_pair g (visited st' - visited st) st' q \<or>
          (fst q = u \<and> snd q \<in> set vs \<and> takes st' u (snd q))"
    by (simp_all add: loop_post_def del: split_paired_All)
  have fa: "frame st ?a" by (rule frame_same) simp_all
  have f: "frame st st'" by (rule frame_trans[OF fa f2])
  have "takes st u v" using c by (simp add: takes_def)
  then have tv: "takes st' u v" using takes_stable[OF f u v] by simp
  have s: "set (v # vs) \<subseteq> visited st'" using s2 v frame_mono[OF f] by auto
  have eq: "k \<in> set (pushed st') \<longleftrightarrow>
          k \<in> set (pushed st) \<or> new_pair g (visited st' - visited st) st' k \<or>
          (fst k = u \<and> snd k \<in> set (v # vs) \<and> takes st' u (snd k))" for k
    unfolding eq2[of k] using tv by (cases k) auto
  show ?thesis unfolding loop_post_def using i' f s nd2 eq by blast
qed

lemma skip_pre:
  assumes "loop_pre g u (v # vs) st"
  shows "loop_pre g u vs st"
  using assms by (auto simp: loop_pre_def)

lemma skip_post:
  assumes p: "loop_pre g u (v # vs) st" and v: "v \<in> visited st"
    and c: "\<not> (parent st u \<noteq> Num v \<and> js_lt (disc st v) (disc st u))"
    and l: "loop_post g u vs st st'"
  shows "loop_post g u (v # vs) st st'"
proof -
  from p have u: "u \<in> visited st" and i: "tinv g st" by (simp_all add: loop_pre_def)
  from l have i': "tinv g st'" and f: "frame st st'" and s2: "set vs \<subseteq> visited st'"
    and nd2: "nbrs_done g (visited st' - visited st) st'"
    and eq2: "\<And>q. q \<in> set (pushed st') \<longleftrightarrow>
          q \<in> set (pushed st) \<or> new_pair g (visited st' - visited st) st' q \<or>
          (fst q = u \<and> snd q \<in> set vs \<and> takes st' u (snd q))"
    by (simp_all add: loop_post_def del: split_paired_All)
  have ub: "0 \<le> u" using tinv_visited_bounds(1)[OF i u] by (simp add: in_bounds_def)
  have tv: "(u, v) \<in> set (pushed st)" if "takes st' u v"
  proof -
    from that have "takes st u v" using takes_stable[OF f u v] by simp
    with c have "parent st v = Num u" by (auto simp: takes_def)
    with i ub show ?thesis unfolding tinv_def by blast
  qed
  have s: "set (v # vs) \<subseteq> visited st'" using s2 v frame_mono[OF f] by auto
  have eq: "k \<in> set (pushed st') \<longleftrightarrow>
          k \<in> set (pushed st) \<or> new_pair g (visited st' - visited st) st' k \<or>
          (fst k = u \<and> snd k \<in> set (v # vs) \<and> takes st' u (snd k))" for k
    unfolding eq2[of k] using tv by (cases k) auto
  show ?thesis unfolding loop_post_def using i' f s nd2 eq by blast
qed

text \<open>
  What \<^verbatim>\<open>dfs\<close> and its loop push, by induction on the traversal: a call of \<^verbatim>\<open>dfs(u)\<close>
  adds exactly the pairs of the nodes it newly visits, and pushes no pair twice.
\<close>

lemma dfs_spec:
  assumes w: "graph_wf g"
  shows "dfs n g u st = Some st' \<Longrightarrow> dfs_pre g u st \<Longrightarrow> dfs_post g u st st'"
    and "dfs_loop n g u k vs st = Some st' \<Longrightarrow> loop_pre g u vs st \<Longrightarrow> loop_post g u vs st st'"
  using w
proof (induction n g u st and n g u k vs st arbitrary: st' and st' rule: dfs_dfs_loop.induct)
  case (1 g u st)
  then show ?case by simp
next
  case (2 n g u st)
  from 2(2) have l: "dfs_loop n g u 0 (neighbors g u) (visit u st) = Some st'" by simp
  have "loop_post g u (neighbors g u) (visit u st) st'"
    by (rule 2(1)[OF l loop_pre_start[OF 2(4) 2(3)] 2(4)])
  then show ?case by (rule dfs_post_intro[OF 2(4) 2(3)])
next
  case (3 n g u children st)
  then show ?case by (simp add: loop_post_nil loop_pre_def)
next
  case (4 n g u children v vs st)
  note pre = 4(7) and wf = 4(8)
  from pre have i: "tinv g st" and vn: "v \<in> node_ids g" by (simp_all add: loop_pre_def)
  have present: "\<not> v \<notin> node_ids g" using vn by simp
  have vb: "in_bounds (nextId g) v" using vn wf unfolding graph_wf_def node_ids_def by auto
  show ?case
  proof (cases "js_seq (disc st v) (Num (- 1))")
    case True
    then have d: "disc st v = Num (- 1)" by (simp add: js_seq_def)
    obtain st1 where st1: "dfs n g v (tree_edge u v st) = Some st1"
      and rest: "dfs_loop n g u (Suc children) vs (after_child u v (Suc children) st1) = Some st'"
      using 4(6) present True by (simp split: option.splits)
    have q: "dfs_post g v (tree_edge u v st) st1"
      by (rule 4(2)[OF present True st1 tree_pre[OF pre d] wf])
    have "loop_post g u vs (after_child u v (Suc children) st1) st'"
      by (rule 4(3)[OF present True st1 rest tree_mid[OF pre d q] wf])
    then show ?thesis by (rule tree_post[OF pre d q])
  next
    case unv: False
    then have "disc st v \<noteq> Num (- 1)" by (auto simp: js_seq_def)
    with tinv_in_bounds_cases[OF i vb] have vv: "v \<in> visited st" by simp
    show ?thesis
    proof (cases "\<not> js_seq (Num v) (parent st u) \<and> js_lt (disc st v) (disc st u)")
      case True
      from 4(6) present unv True have l: "dfs_loop n g u children vs (back_edge u v st) = Some st'"
        by simp
      have "loop_post g u vs (back_edge u v st) st'"
        by (rule 4(4)[OF present unv True l back_pre[OF pre] wf])
      moreover from True have "parent st u \<noteq> Num v" "js_lt (disc st v) (disc st u)"
        by (auto simp: js_seq_def)
      ultimately show ?thesis using back_post[OF pre vv] by blast
    next
      case False
      from 4(6) present unv False have l: "dfs_loop n g u children vs st = Some st'"
        by auto
      have "loop_post g u vs st st'"
        by (rule 4(5)[OF present unv False l skip_pre[OF pre] wf])
      moreover from False have "\<not> (parent st u \<noteq> Num v \<and> js_lt (disc st v) (disc st u))"
        by (auto simp: js_seq_def)
      ultimately show ?thesis using skip_post[OF pre vv] by blast
    qed
  qed
qed

lemma visited_init: "visited (start_state g) = {}"
  by (auto simp: visited_def start_state_def)

lemma tinv_init: "tinv g (start_state g)"
  unfolding tinv_def visited_init
  by (auto simp: start_state_def pushed_def)

lemma fin_init: "fin g (start_state g)"
  unfolding fin_def visited_init using tinv_init[of g]
  by (simp add: nbrs_done_def new_pair_def) (simp add: start_state_def pushed_def)

lemma edgeStack_pop_rest: "edgeStack (pop_rest st) = []"
  by (auto simp: pop_rest_def push_component_def split: prod.splits)

lemma fin_dfs:
  assumes w: "graph_wf g" and f: "fin g st" and q: "dfs_post g u st st1"
  shows "fin g (pop_rest st1)"
proof -
  from f have nd0: "nbrs_done g (visited st) st"
    and eq0: "\<And>k. k \<in> set (pushed st) \<longleftrightarrow> new_pair g (visited st) st k"
    by (simp_all add: fin_def del: split_paired_All)
  from q have i1: "tinv g st1" and fr: "frame st st1"
    and nd1: "nbrs_done g (visited st1 - visited st) st1"
    and eq1: "\<And>k. k \<in> set (pushed st1) \<longleftrightarrow>
          k \<in> set (pushed st) \<or> new_pair g (visited st1 - visited st) st1 k"
    by (simp_all add: dfs_post_def del: split_paired_All)
  have m: "visited st \<subseteq> visited st1" by (rule frame_mono[OF fr])
  have nd: "nbrs_done g (visited st1) st1"
    using nd0 nd1 m unfolding nbrs_done_def by blast
  have np: "new_pair g (visited st) st k \<longleftrightarrow> new_pair g (visited st) st1 k" for k
  proof (cases "fst k \<in> visited st \<and> snd k \<in> set (neighbors g (fst k))")
    case True
    then have "fst k \<in> visited st" "snd k \<in> visited st" using nd0 unfolding nbrs_done_def by auto
    from takes_stable[OF fr this] show ?thesis by (simp add: new_pair_def)
  next
    case False
    then show ?thesis by (auto simp: new_pair_def)
  qed
  have eq: "k \<in> set (pushed st1) \<longleftrightarrow> new_pair g (visited st1) st1 k" for k
    unfolding eq1[of k] eq0[of k] np[of k] using m by (auto simp: new_pair_def)
  have nd': "nbrs_done g (visited (pop_rest st1)) (pop_rest st1)"
    using nd by (simp add: nbrs_done_def)
  have eq': "k \<in> set (pushed (pop_rest st1)) \<longleftrightarrow>
               new_pair g (visited (pop_rest st1)) (pop_rest st1) k" for k
    using eq[of k] by (simp add: pushed_pop_rest new_pair_def)
  show ?thesis
    unfolding fin_def using tinv_pop_rest[OF i1] edgeStack_pop_rest[of st1] nd' eq' by blast
qed

lemma roots_fin:
  assumes w: "graph_wf g"
  shows "roots n g nds st = Some st' \<Longrightarrow> fin g st \<Longrightarrow>
     \<forall>nd \<in> set nds. in_bounds (nextId g) (id' nd) \<Longrightarrow>
     fin g st' \<and> visited st \<subseteq> visited st' \<and> id' ` set nds \<subseteq> visited st'"
proof (induction nds arbitrary: st)
  case Nil
  then show ?case by simp
next
  case (Cons nd nds)
  have i: "tinv g st" using Cons.prems(2) by (simp add: fin_def)
  have nb: "in_bounds (nextId g) (id' nd)" using Cons.prems(3) by simp
  have nbs: "\<forall>nd \<in> set nds. in_bounds (nextId g) (id' nd)" using Cons.prems(3) by simp
  show ?case
  proof (cases "js_seq (disc st (id' nd)) (Num (- 1))")
    case True
    then have d: "disc st (id' nd) = Num (- 1)" by (simp add: js_seq_def)
    obtain st1 where st1: "dfs n g (id' nd) st = Some st1"
      and rest: "roots n g nds (pop_rest st1) = Some st'"
      using Cons.prems(1) True by (simp split: option.splits)
    have pre: "dfs_pre g (id' nd) st" using i d by (simp add: dfs_pre_def)
    have q: "dfs_post g (id' nd) st st1" by (rule dfs_spec(1)[OF w st1 pre])
    have f1: "fin g (pop_rest st1)" by (rule fin_dfs[OF w Cons.prems(2) q])
    from q have "frame st st1" "id' nd \<in> visited st1" by (simp_all add: dfs_post_def)
    then have "visited st \<subseteq> visited (pop_rest st1)" "id' nd \<in> visited (pop_rest st1)"
      using frame_mono[of st st1] by simp_all
    with Cons.IH[OF rest f1 nbs] show ?thesis by auto
  next
    case False
    then have "disc st (id' nd) \<noteq> Num (- 1)" by (auto simp: js_seq_def)
    with tinv_in_bounds_cases[OF i nb] have v: "id' nd \<in> visited st" by simp
    from Cons.prems(1) False have "roots n g nds st = Some st'" by simp
    from Cons.IH[OF this Cons.prems(2) nbs] v show ?thesis by auto
  qed
qed

lemma takes_exclusive:
  assumes i: "tinv g st" and p: "p \<in> visited st" and q: "q \<in> visited st" and n: "p \<noteq> q"
  shows "takes st p q \<longleftrightarrow> \<not> takes st q p"
proof -
  from tinv_visited_bounds[OF i p] obtain tp where tp: "disc st p = Num tp" "1 \<le> tp" "0 \<le> p"
    by (auto simp: in_bounds_def)
  from tinv_visited_bounds[OF i q] obtain tq where tq: "disc st q = Num tq" "1 \<le> tq" "0 \<le> q"
    by (auto simp: in_bounds_def)
  have ne: "tp \<noteq> tq"
  proof
    assume "tp = tq"
    with tp tq i have "p = q" unfolding tinv_def by blast
    with n show False by simp
  qed
  have a1: "tp < tq" if "parent st q = Num p"
  proof -
    from i q that tp(3) have "js_lt (disc st p) (disc st q)" unfolding tinv_def by blast
    then show ?thesis using tp tq by simp
  qed
  have a2: "tq < tp" if "parent st p = Num q"
  proof -
    from i p that tq(3) have "js_lt (disc st q) (disc st p)" unfolding tinv_def by blast
    then show ?thesis using tp tq by simp
  qed
  show ?thesis using a1 a2 ne tp(1) tq(1) by (auto simp: takes_def)
qed

lemma ekey_eq: "ekey k = edgeKey p q \<longleftrightarrow> k = (p, q) \<or> k = (q, p)"
  by (cases k) (auto simp: ekey_def edgeKey_def min_def max_def)

lemma count_one:
  assumes d: "distinct xs" and p: "p \<noteq> q" and o: "(p, q) \<in> set xs \<longleftrightarrow> (q, p) \<notin> set xs"
  shows "length (filter (\<lambda>k. ekey k = edgeKey p q) xs) = Suc 0"
proof -
  have "distinct (filter (\<lambda>k. ekey k = edgeKey p q) xs)" using d by simp
  then have "length (filter (\<lambda>k. ekey k = edgeKey p q) xs) = card (set (filter (\<lambda>k. ekey k = edgeKey p q) xs))"
    by (simp only: distinct_card)
  also have "set (filter (\<lambda>k. ekey k = edgeKey p q) xs) = (if (p, q) \<in> set xs then {(p, q)} else {(q, p)})"
    using o by (auto simp: ekey_eq)
  also have "card \<dots> = Suc 0" by simp
  finally show ?thesis .
qed

lemma analyze_edge_count:
  assumes w: "graph_wf g" and r: "analyze depth g = Inr r" and e: "(k, e) \<in> set (edgeMap g)"
  shows "edge_count e (result.components r) = 1"
proof -
  from r obtain st where st: "roots depth g (nodes g) (start_state g) = Some st"
    and rr: "r = make_result st"
    by (auto simp: analyze_eq split: if_splits option.splits)
  have nb: "\<forall>nd \<in> set (nodes g). in_bounds (nextId g) (id' nd)"
    using w unfolding graph_wf_def by blast
  from roots_fin[OF w st fin_init nb] have f: "fin g st" and v: "node_ids g \<subseteq> visited st"
    by (simp_all add: node_ids_def)
  from f have i: "tinv g st" and es: "edgeStack st = []"
    and eq: "\<And>k. k \<in> set (pushed st) \<longleftrightarrow> new_pair g (visited st) st k"
    by (simp_all add: fin_def del: split_paired_All)
  from w e have n1: "b e \<in> set (neighbors g (a e))" unfolding graph_wf_def by blast
  note n = wf_nbrs[OF w n1]
  have n2: "a e \<in> set (neighbors g (b e))" by (rule n(4))
  have vb: "b e \<in> visited st" using n(1) v by auto
  have va: "a e \<in> visited st" using wf_nbrs(1)[OF w n2] v by auto
  have ne: "a e \<noteq> b e" using n(2) by simp
  have "(a e, b e) \<in> set (pushed st) \<longleftrightarrow> (b e, a e) \<notin> set (pushed st)"
    unfolding eq using takes_exclusive[OF i va vb ne] va vb n1 n2 by (simp add: new_pair_def)
  moreover have "distinct (pushed st)" using i by (simp add: tinv_def)
  ultimately have "length (filter (\<lambda>k. ekey k = edgeKey (a e) (b e)) (pushed st)) = Suc 0"
    using count_one[OF _ ne] by blast
  then show ?thesis using es rr by (simp add: edge_count_def pushed_def make_result_def)
qed

lemma ex_cycle_eq:
  "ex_cycle = \<lparr>nodes = [\<lparr>id' = 0, x = 100, y = 100\<rparr>, \<lparr>id' = 1, x = 200, y = 100\<rparr>,
                      \<lparr>id' = 2, x = 300, y = 100\<rparr>, \<lparr>id' = 3, x = 400, y = 100\<rparr>],
              adj = [(0, [1, 2]), (1, [0, 2]), (2, [1, 3, 0]), (3, [2])], nextId = 4,
              edgeMap = [(UKey 0 1, \<lparr>a = 0, b = 1, directed = False\<rparr>),
                         (UKey 1 2, \<lparr>a = 1, b = 2, directed = False\<rparr>),
                         (UKey 2 3, \<lparr>a = 2, b = 3, directed = False\<rparr>),
                         (UKey 0 2, \<lparr>a = 0, b = 2, directed = False\<rparr>)]\<rparr>"
  by (simp add: ex_cycle_def ex_path_eq addEdge_def Let_def has_def adj_add_def set_add_def edgeKey_def)

lemma graph_wf_ex_cycle: "graph_wf ex_cycle"
  by (simp add: ex_cycle_eq graph_wf_def adj_symmetric_def adj_closed_def neighbors_def
      node_ids_def in_bounds_def)

lemma analyze_ex_cycle:
  "analyze 4 ex_cycle =
     Inr \<lparr>articulationPoints = [2], bridges = [(2, 3)],
           components = [\<lparr>edges = [(2, 3)], verts = [2, 3]\<rparr>,
                         \<lparr>edges = [(2, 0), (1, 2), (0, 1)], verts = [2, 0, 1]\<rparr>],
           edgeToComp = [(UKey 2 3, 0), (UKey 0 2, 1), (UKey 1 2, 1), (UKey 0 1, 1)]\<rparr>"
  by code_simp

lemma filter_concat_one:
  "length (filter P (concat xss)) = 1 \<Longrightarrow> \<exists>!i. i < length xss \<and> (\<exists>k \<in> set (xss ! i). P k)"
proof (induction xss)
  case Nil
  then show ?case by simp
next
  case (Cons xs xss)
  show ?case
  proof (cases "filter P xs = []")
    case True
    then have no: "\<not> (\<exists>k \<in> set xs. P k)" by (simp add: filter_empty_conv)
    from Cons.prems True have "length (filter P (concat xss)) = 1" by simp
    from Cons.IH[OF this] obtain i where i: "i < length xss" "\<exists>k \<in> set (xss ! i). P k"
      and u: "\<And>j. j < length xss \<Longrightarrow> \<exists>k \<in> set (xss ! j). P k \<Longrightarrow> j = i"
      by blast
    show ?thesis
    proof (rule ex1I[of _ "Suc i"])
      show "Suc i < length (xs # xss) \<and> (\<exists>k \<in> set ((xs # xss) ! Suc i). P k)" using i by simp
    next
      fix j assume j: "j < length (xs # xss) \<and> (\<exists>k \<in> set ((xs # xss) ! j). P k)"
      show "j = Suc i"
      proof (cases j)
        case 0
        with j no show ?thesis by simp
      next
        case (Suc m)
        with j have "m < length xss" "\<exists>k \<in> set (xss ! m). P k" by simp_all
        from u[OF this] Suc show ?thesis by simp
      qed
    qed
  next
    case False
    then have l: "1 \<le> length (filter P xs)" by (cases "filter P xs") simp_all
    from Cons.prems have "length (filter P xs) + length (filter P (concat xss)) = 1" by simp
    with l have "length (filter P (concat xss)) = 0" by arith
    then have "filter P (concat xss) = []" by simp
    then have no: "\<not> (\<exists>k \<in> set (concat xss). P k)" by (simp add: filter_empty_conv)
    from False have yes: "\<exists>k \<in> set xs. P k" by (simp add: filter_empty_conv)
    show ?thesis
    proof (rule ex1I[of _ 0])
      show "0 < length (xs # xss) \<and> (\<exists>k \<in> set ((xs # xss) ! 0). P k)" using yes by simp
    next
      fix j assume j: "j < length (xs # xss) \<and> (\<exists>k \<in> set ((xs # xss) ! j). P k)"
      show "j = 0"
      proof (cases j)
        case 0
        then show ?thesis .
      next
        case (Suc m)
        with j have m: "m < length xss" "\<exists>k \<in> set (xss ! m). P k" by simp_all
        then have "xss ! m \<in> set xss" by simp
        with m(2) no show ?thesis by auto
      qed
    qed
  qed
qed

text \<open>
  On a graph whose ids are indexes below \<^verbatim>\<open>nextId\<close> and whose indexes agree, every
  result that \<^verbatim>\<open>analyze\<close> returns has every edge of the graph exactly once among the edges
  of its components, and so in exactly one component; and \<^verbatim>\<open>analyze\<close> returns when
  \<^verbatim>\<open>nextId\<close> is below \<open>2^32\<close> and the call stack has room for as many nested calls of
  \<^verbatim>\<open>dfs\<close> as the graph has nodes.  The graph \<open>ex_neg\<close> is outside this class only by its
  negative id.
\<close>

theorem analyze_partitions_edges:
  assumes "graph_wf g" and "(k, e) \<in> set (edgeMap g)"
  shows "(nextId g < 2 ^ 32 \<and> length (nodes g) \<le> depth \<longrightarrow> (\<exists>r. analyze depth g = Inr r)) \<and>
     (\<forall>r. analyze depth g = Inr r \<longrightarrow>
        edge_count e (result.components r) = 1 \<and>
        (\<exists>!i. i < length (result.components r) \<and> in_component e (result.components r ! i)))"
proof (intro conjI allI impI)
  assume "nextId g < 2 ^ 32 \<and> length (nodes g) \<le> depth"
  then show "\<exists>r. analyze depth g = Inr r" using analyze_total[of g depth] by blast
next
  fix r assume r: "analyze depth g = Inr r"
  show c: "edge_count e (result.components r) = 1" by (rule analyze_edge_count[OF assms(1) r assms(2)])
  then have "length (filter (\<lambda>p. ekey p = edgeKey (a e) (b e))
                 (concat (map edges (result.components r)))) = 1"
    by (simp add: edge_count_def)
  from filter_concat_one[OF this]
  show "\<exists>!i. i < length (result.components r) \<and> in_component e (result.components r ! i)"
    by (simp add: in_component_def cong: conj_cong)
qed

theorem analyze_partitions_edges_witness:
  "graph_wf ex_cycle \<and>
   (UKey 0 2, \<lparr>a = 0, b = 2, directed = False\<rparr>) \<in> set (edgeMap ex_cycle) \<and>
   analyze 4 ex_cycle =
     Inr \<lparr>articulationPoints = [2], bridges = [(2, 3)],
           components = [\<lparr>edges = [(2, 3)], verts = [2, 3]\<rparr>,
                         \<lparr>edges = [(2, 0), (1, 2), (0, 1)], verts = [2, 0, 1]\<rparr>],
           edgeToComp = [(UKey 2 3, 0), (UKey 0 2, 1), (UKey 1 2, 1), (UKey 0 1, 1)]\<rparr> \<and>
   edge_count \<lparr>a = 0, b = 2, directed = False\<rparr>
     [\<lparr>edges = [(2, 3)], verts = [2, 3]\<rparr>,
      \<lparr>edges = [(2, 0), (1, 2), (0, 1)], verts = [2, 0, 1]\<rparr>] = 1"
proof -
  have m: "(UKey 0 2, \<lparr>a = 0, b = 2, directed = False\<rparr>) \<in> set (edgeMap ex_cycle)"
    by (simp add: ex_cycle_eq)
  from analyze_partitions_edges[OF graph_wf_ex_cycle m, of 4]
  show ?thesis using graph_wf_ex_cycle m by (simp add: analyze_ex_cycle)
qed

end
